theory Spec2Isabelle
  imports Main
begin

section \<open>Data model\<close>

text \<open>
  Attribute values and the fields of an embedded object are JavaScript values; only
  their equality, whether a field is a string and whether a value is truthy matter
  to the adapter. \<open>JInherited name\<close> is the member \<open>name\<close> of \<open>Object.prototype\<close>, a
  function or, for \<open>__proto__\<close>, the prototype itself: the value that reading the
  property \<open>name\<close> of a plain object yields when the object has no own key \<open>name\<close>.
  A string is a list of code units, the line feed being \<open>nl\<close>.
\<close>

datatype jsval = JString string | JNumber int | JBoolean bool | JNull | JInherited string

type_synonym attrs = "string \<rightharpoonup> jsval"

definition nl :: char where
  "nl = CHR 0x0A"

text \<open>
  The inserted content of a segment or of an operation is a string or an object
  (\<open>string | Record<string, unknown>\<close>).
\<close>

datatype ins = Text string | Embed "string \<rightharpoonup> jsval"

text \<open>
  Modelled from the spec: the declarations of \<open>Segment\<close> and \<open>Line\<close>, which
  \<open>index.tsx\<close> imports from \<open>./types\<close>, are not among the sources. By the data model
  of the specification and by their use in \<open>index.tsx\<close>, a segment is a run of
  inserted content with its inline attributes, and a line is a list of segments
  with the block attributes of the line.
\<close>

record segment =
  seg_insert :: ins
  seg_attributes :: attrs

record line =
  segments :: "segment list"
  line_attributes :: attrs

text \<open>
  An operation of the quill-delta library (\<open>Op\<close>): every field is optional. A
  \<open>Delta\<close> is the list of its operations.
\<close>

record op =
  op_insert :: "ins option"
  op_delete :: "nat option"
  op_retain :: "nat option"
  op_attributes :: "attrs option"

type_synonym delta = "op list"

section \<open>The Delta builder of quill-delta\<close>

text \<open>
  The adapter builds its Deltas with \<open>Delta.insert\<close> of the quill-delta library,
  which is not part of the repository; the builder is modelled after the library.
  \<open>Delta.push\<close>, which \<open>Delta.insert\<close> calls: two deletes
  are added up; an insert goes in front of a trailing delete; a string insert is
  appended to a preceding string insert that has equal attributes (\<open>isEqual\<close>), and
  likewise for two retains; otherwise the operation is spliced in at \<open>index\<close>.
  \<open>push_at front back newOp\<close> is the part of \<open>push\<close> after \<open>index\<close> is fixed:
  \<open>front\<close> is \<open>ops.slice(0, index)\<close>, not empty, and \<open>back\<close> the rest.
\<close>

definition push_at :: "op list \<Rightarrow> op list \<Rightarrow> op \<Rightarrow> op list" where
  "push_at front back newOp =
     (let lastOp = last front in
      if op_attributes newOp = op_attributes lastOp then
        (case (op_insert newOp, op_insert lastOp) of
           (Some (Text t), Some (Text u)) \<Rightarrow>
             butlast front @
             [\<lparr>op_insert = Some (Text (u @ t)), op_delete = None, op_retain = None,
               op_attributes = op_attributes newOp\<rparr>] @ back
         | _ \<Rightarrow>
             (case (op_retain newOp, op_retain lastOp) of
                (Some n, Some m) \<Rightarrow>
                  butlast front @
                  [\<lparr>op_insert = None, op_delete = None, op_retain = Some (m + n),
                    op_attributes = op_attributes newOp\<rparr>] @ back
              | _ \<Rightarrow> front @ [newOp] @ back))
      else front @ [newOp] @ back)"

definition push :: "delta \<Rightarrow> op \<Rightarrow> delta" where
  "push ops newOp =
     (if ops = [] then [newOp]
      else
        (case (op_delete newOp, op_delete (last ops)) of
           (Some n, Some m) \<Rightarrow>
             butlast ops @
             [\<lparr>op_insert = None, op_delete = Some (m + n), op_retain = None,
               op_attributes = None\<rparr>]
         | _ \<Rightarrow>
             if op_delete (last ops) \<noteq> None \<and> op_insert newOp \<noteq> None then
               (if butlast ops = [] then newOp # ops
                else push_at (butlast ops) [last ops] newOp)
             else push_at ops [] newOp))"

text \<open>
  \<open>Delta.insert(arg, attributes)\<close>: an empty string is not inserted, and the
  attributes are kept on the operation only when they have a key.
\<close>

definition delta_insert :: "delta \<Rightarrow> ins \<Rightarrow> attrs \<Rightarrow> delta" where
  "delta_insert ops arg attributes =
     (if arg = Text [] then ops
      else push ops
        \<lparr>op_insert = Some arg, op_delete = None, op_retain = None,
         op_attributes = (if attributes = Map.empty then None else Some attributes)\<rparr>)"

section \<open>The content codec\<close>

text \<open>
  \<open>encodeContent\<close>: the loop over \<open>lines.entries()\<close> carries the Delta built so far
  and \<open>lineAttrs\<close>, the attributes of the line before; \<open>i\<close> is the index.
\<close>

definition insert_segments :: "delta \<Rightarrow> segment list \<Rightarrow> delta" where
  "insert_segments content segs =
     foldl (\<lambda>c s. delta_insert c (seg_insert s) (seg_attributes s)) content segs"

fun encode_lines :: "nat \<Rightarrow> line list \<Rightarrow> delta \<times> attrs \<Rightarrow> delta \<times> attrs" where
  "encode_lines i [] st = st"
| "encode_lines i (l # ls) (content, lineAttrs) =
     encode_lines (Suc i) ls
       (insert_segments
          (if i \<noteq> 0 then delta_insert content (Text [nl]) lineAttrs else content)
          (segments l),
        line_attributes l)"

definition encodeContent :: "line list \<Rightarrow> delta" where
  "encodeContent lines =
     (case encode_lines 0 lines ([], Map.empty) of
        (content, lineAttrs) \<Rightarrow>
          if lineAttrs \<noteq> Map.empty then delta_insert content (Text [nl]) lineAttrs
          else content)"

text \<open>\<open>String.prototype.split\<close> at the line feed: the result is never empty.\<close>

fun split_nl :: "string \<Rightarrow> string list" where
  "split_nl [] = [[]]"
| "split_nl (c # cs) =
     (if c = nl then [] # split_nl cs
      else (case split_nl cs of [] \<Rightarrow> [[c]] | p # ps \<Rightarrow> (c # p) # ps))"

text \<open>
  \<open>decodeContent\<close>: the state of the \<open>forEach\<close> is the pair of \<open>result\<close> and
  \<open>segments\<close>. \<open>or_empty\<close> is \<open>attributes ?? {}\<close>.
\<close>

type_synonym dstate = "line list \<times> segment list"

definition or_empty :: "attrs option \<Rightarrow> attrs" where
  "or_empty a = (case a of None \<Rightarrow> Map.empty | Some m \<Rightarrow> m)"

definition close_line :: "attrs \<Rightarrow> dstate \<Rightarrow> dstate" where
  "close_line a st =
     (fst st @ [\<lparr>segments = snd st, line_attributes = a\<rparr>], [])"

definition push_segment :: "ins \<Rightarrow> attrs \<Rightarrow> dstate \<Rightarrow> dstate" where
  "push_segment x a st =
     (fst st, snd st @ [\<lparr>seg_insert = x, seg_attributes = a\<rparr>])"

fun split_loop :: "nat \<Rightarrow> string list \<Rightarrow> attrs \<Rightarrow> dstate \<Rightarrow> dstate" where
  "split_loop i [] a st = st"
| "split_loop i (p # ps) a st =
     split_loop (Suc i) ps a
       (push_segment (Text p) a (if i \<noteq> 0 then close_line Map.empty st else st))"

definition decode_op :: "dstate \<Rightarrow> op \<Rightarrow> dstate" where
  "decode_op st x =
     (case op_insert x of
        Some (Text s) \<Rightarrow>
          if list_all (\<lambda>c. c = nl) s
          then (close_line (or_empty (op_attributes x)) ^^ length s) st
          else split_loop 0 (split_nl s) (or_empty (op_attributes x)) st
      | Some (Embed e) \<Rightarrow> push_segment (Embed e) (or_empty (op_attributes x)) st
      | None \<Rightarrow> push_segment (Text []) (or_empty (op_attributes x)) st)"

definition decode_finish :: "dstate \<Rightarrow> line list" where
  "decode_finish st =
     (if snd st \<noteq> [] then fst (close_line Map.empty st) else fst st)"

definition decodeContent :: "delta option \<Rightarrow> line list" where
  "decodeContent content =
     (case content of
        None \<Rightarrow> []
      | Some ops \<Rightarrow> decode_finish (foldl decode_op ([], []) ops))"

text \<open>
  \<open>_removeEmptyLines\<close>: \<open>_.isEmpty\<close> holds of the empty string and of an object
  without keys.
\<close>

fun is_empty_insert :: "ins \<Rightarrow> bool" where
  "is_empty_insert (Text t) = (t = [])"
| "is_empty_insert (Embed e) = (e = Map.empty)"

definition empty_line :: "line \<Rightarrow> bool" where
  "empty_line x =
     (list_all (\<lambda>s. is_empty_insert (seg_insert s)) (segments x)
      \<and> line_attributes x = Map.empty)"

definition removeEmptyLines :: "line list \<Rightarrow> line list" where
  "removeEmptyLines lines = rev (dropWhile empty_line (rev lines))"

section \<open>The editor component\<close>

text \<open>
  The editing engine and the diffing of Deltas are external to the adapter. The
  component uses them through the calls below; \<open>'e\<close> is the state of one editor
  instance. A selection is a pair of index and length.
\<close>

record 'e engine =
  getContents :: "'e \<Rightarrow> delta"
  hasFocus :: "'e \<Rightarrow> bool"
  getSelection :: "'e \<Rightarrow> (nat \<times> nat) option"
  setContents :: "delta \<Rightarrow> 'e \<Rightarrow> 'e"
  setSelection :: "nat \<Rightarrow> nat \<Rightarrow> 'e \<Rightarrow> 'e"
  diff :: "delta \<Rightarrow> delta \<Rightarrow> delta"
  dlength :: "delta \<Rightarrow> nat"
  transformPosition :: "delta \<Rightarrow> nat \<Rightarrow> nat"

text \<open>
  The state of one mounted \<open>QuillEditor\<close>: the editor reference, the two state
  cells, the \<open>value\<close> property (\<open>value ?? []\<close>) and, as a log, the first argument of
  every call of \<open>onChangeValue\<close> so far.
\<close>

record 'e component =
  editorRef :: "'e option"
  mouseDown :: bool
  capture :: "delta option"
  val :: "line list"
  changes :: "line list list"

definition content :: "'e component \<Rightarrow> delta" where
  "content s = encodeContent (val s)"

text \<open>The effect on \<open>[capture, mouseDown]\<close>.\<close>

definition capture_effect :: "'e component \<Rightarrow> 'e component" where
  "capture_effect s =
     (case editorRef s of
        None \<Rightarrow> s
      | Some editor \<Rightarrow>
          if mouseDown s \<or> capture s = None then s
          else s\<lparr>capture := None,
                 changes := changes s @ [removeEmptyLines (decodeContent (capture s))]\<rparr>)"

text \<open>The effect on \<open>[content, mouseDown]\<close>.\<close>

definition content_effect :: "'e engine \<Rightarrow> 'e component \<Rightarrow> 'e component" where
  "content_effect E s =
     (case editorRef s of
        None \<Rightarrow> s
      | Some editor \<Rightarrow>
          if mouseDown s then s
          else if dlength E
                    (diff E
                       (encodeContent
                          (removeEmptyLines (decodeContent (Some (getContents E editor)))))
                       (content s)) = 0
          then s
          else
            (let selection = (if hasFocus E editor then getSelection E editor else None);
                 editor1 = setContents E (content s) editor
             in case selection of
                  None \<Rightarrow> s\<lparr>editorRef := Some editor1\<rparr>
                | Some (index, len) \<Rightarrow>
                    (let d = diff E (getContents E editor1) (content s);
                         pos = transformPosition E d index
                     in s\<lparr>editorRef := Some (setSelection E pos len editor1)\<rparr>)))"

text \<open>
  The argument of \<open>replaceAssets\<close> is a plain object (\<open>Record<string, string>\<close>),
  given here by its own keys. The property access \<open>assets[key]\<close> makes no
  own-property test: an own key gives its string; any other name gives the member of
  \<open>Object.prototype\<close> of that name if there is one, and \<open>undefined\<close> otherwise.
  \<open>object_prototype\<close> lists the names of the members of \<open>Object.prototype\<close>.
  \<open>truthy\<close> is the test of \<open>if (replace)\<close>.
\<close>

definition object_prototype :: "string list" where
  "object_prototype =
     [''constructor'', ''hasOwnProperty'', ''isPrototypeOf'', ''propertyIsEnumerable'',
      ''toLocaleString'', ''toString'', ''valueOf'', ''__proto__'',
      ''__defineGetter__'', ''__defineSetter__'', ''__lookupGetter__'', ''__lookupSetter__'']"

definition property :: "(string \<rightharpoonup> string) \<Rightarrow> string \<Rightarrow> jsval option" where
  "property assets key =
     (case assets key of
        Some r \<Rightarrow> Some (JString r)
      | None \<Rightarrow> if key \<in> set object_prototype then Some (JInherited key) else None)"

fun truthy :: "jsval \<Rightarrow> bool" where
  "truthy (JString t) = (t \<noteq> [])"
| "truthy (JNumber n) = (n \<noteq> 0)"
| "truthy (JBoolean b) = b"
| "truthy JNull = False"
| "truthy (JInherited name) = True"

text \<open>
  \<open>replaceAssets\<close> of the reference handle. \<open>replace_op\<close> is the function mapped over
  the operations, paired with whether it set \<open>isChanged\<close>.
\<close>

definition replace_op :: "(string \<rightharpoonup> string) \<Rightarrow> op \<Rightarrow> op \<times> bool" where
  "replace_op assets x =
     (case op_insert x of
        None \<Rightarrow> (x, False)
      | Some (Text t) \<Rightarrow> (x, False)
      | Some (Embed e) \<Rightarrow>
          (case e ''image'' of
             Some (JString uri) \<Rightarrow>
               (case property assets uri of
                  None \<Rightarrow> (x, False)
                | Some replace \<Rightarrow>
                    if truthy replace
                    then (x\<lparr>op_insert := Some (Embed [''image'' \<mapsto> replace])\<rparr>, True)
                    else (x, False))
           | _ \<Rightarrow> (x, False)))"

definition replaceAssets :: "(string \<rightharpoonup> string) \<Rightarrow> 'e component \<Rightarrow> 'e component" where
  "replaceAssets assets s =
     (case editorRef s of
        None \<Rightarrow> s
      | Some editor \<Rightarrow>
          (let rs = map (replace_op assets) (content s) in
           if \<not> list_ex snd rs then s
           else s\<lparr>changes := changes s @ [decodeContent (Some (map fst rs))]\<rparr>))"

text \<open>
  The events of a mounted component. \<open>TextChange editor c\<close> is the engine's
  text-change event: \<open>editor\<close> is the editor after the edit and \<open>c\<close> is
  \<open>oldContent.compose(delta)\<close>. \<open>SetValue v\<close> is a new \<open>value\<close> property. After the
  handler has updated the state, the effects whose dependencies changed run, in the
  order of their declaration, before the next event; a mouse event that leaves
  \<open>mouseDown\<close> as it is changes nothing.
\<close>

datatype 'e event =
  MouseDown | MouseUp | TextChange 'e delta | SetValue "line list"
  | ReplaceAssets "string \<rightharpoonup> string"

fun step :: "'e engine \<Rightarrow> 'e component \<Rightarrow> 'e event \<Rightarrow> 'e component" where
  "step E s MouseDown =
     (if mouseDown s then s
      else content_effect E (capture_effect (s\<lparr>mouseDown := True\<rparr>)))"
| "step E s MouseUp =
     (if mouseDown s then content_effect E (capture_effect (s\<lparr>mouseDown := False\<rparr>))
      else s)"
| "step E s (TextChange editor c) =
     capture_effect
       (s\<lparr>editorRef := map_option (\<lambda>_. editor) (editorRef s), capture := Some c\<rparr>)"
| "step E s (SetValue v) = content_effect E (s\<lparr>val := v\<rparr>)"
| "step E s (ReplaceAssets assets) = replaceAssets assets s"

definition run :: "'e engine \<Rightarrow> 'e component \<Rightarrow> 'e event list \<Rightarrow> 'e component" where
  "run E s evs = foldl (step E) s evs"

section \<open>Predicates of the statements\<close>

text \<open>
  What the decoder is to make of one operation: the segments it adds, and the
  attributes of the lines it closes. A string of line feeds only adds no segment and
  closes one line for each line feed, with the attributes of the operation. Any other
  string adds its pieces between the line feeds, with the attributes of the
  operation, and closes one line without attributes for each line feed. An embed
  adds one segment, and so does an operation without insert, as an empty text. In
  all of them an operation without attributes field gives the empty map.
\<close>

definition op_segments :: "op \<Rightarrow> segment list" where
  "op_segments x =
     (let a = (case op_attributes x of None \<Rightarrow> Map.empty | Some m \<Rightarrow> m) in
      case op_insert x of
        Some (Text s) \<Rightarrow>
          if list_all (\<lambda>c. c = nl) s then []
          else map (\<lambda>p. \<lparr>seg_insert = Text p, seg_attributes = a\<rparr>) (split_nl s)
      | Some (Embed e) \<Rightarrow> [\<lparr>seg_insert = Embed e, seg_attributes = a\<rparr>]
      | None \<Rightarrow> [\<lparr>seg_insert = Text [], seg_attributes = a\<rparr>])"

definition op_line_attributes :: "op \<Rightarrow> attrs list" where
  "op_line_attributes x =
     (case op_insert x of
        Some (Text s) \<Rightarrow>
          if list_all (\<lambda>c. c = nl) s
          then replicate (length s)
                 (case op_attributes x of None \<Rightarrow> Map.empty | Some m \<Rightarrow> m)
          else replicate (length (filter (\<lambda>c. c = nl) s)) Map.empty
      | _ \<Rightarrow> [])"

text \<open>
  Operations and lines of the examples. \<open>inherited_seg name\<close> is an image segment
  whose image is the member \<open>name\<close> of \<open>Object.prototype\<close>.
\<close>

definition text_op :: "string \<Rightarrow> attrs option \<Rightarrow> op" where
  "text_op t a = \<lparr>op_insert = Some (Text t), op_delete = None, op_retain = None,
     op_attributes = a\<rparr>"

definition image_op :: "string \<Rightarrow> op" where
  "image_op uri = \<lparr>op_insert = Some (Embed [''image'' \<mapsto> JString uri]), op_delete = None,
     op_retain = None, op_attributes = None\<rparr>"

definition text_seg :: "string \<Rightarrow> attrs \<Rightarrow> segment" where
  "text_seg t a = \<lparr>seg_insert = Text t, seg_attributes = a\<rparr>"

definition image_seg :: "string \<Rightarrow> segment" where
  "image_seg uri = \<lparr>seg_insert = Embed [''image'' \<mapsto> JString uri],
     seg_attributes = Map.empty\<rparr>"

definition inherited_seg :: "string \<Rightarrow> segment" where
  "inherited_seg name = \<lparr>seg_insert = Embed [''image'' \<mapsto> JInherited name],
     seg_attributes = Map.empty\<rparr>"

definition mk_line :: "segment list \<Rightarrow> attrs \<Rightarrow> line" where
  "mk_line ss a = \<lparr>segments = ss, line_attributes = a\<rparr>"

text \<open>
  The URI of an image operation. \<open>matching assets x\<close>: the operation is an image
  whose URI is a key of the mapping with a replacement that is not the empty string.
  \<open>inherited assets x\<close>: the operation is an image whose URI is no key of the
  mapping but the name of a member of \<open>Object.prototype\<close>.
\<close>

definition image_uri :: "op \<Rightarrow> string option" where
  "image_uri x =
     (case op_insert x of
        Some (Embed e) \<Rightarrow> (case e ''image'' of Some (JString uri) \<Rightarrow> Some uri | _ \<Rightarrow> None)
      | _ \<Rightarrow> None)"

definition matching :: "(string \<rightharpoonup> string) \<Rightarrow> op \<Rightarrow> bool" where
  "matching assets x =
     (case image_uri x of
        None \<Rightarrow> False
      | Some uri \<Rightarrow> (case assets uri of None \<Rightarrow> False | Some replace \<Rightarrow> replace \<noteq> []))"

definition inherited :: "(string \<rightharpoonup> string) \<Rightarrow> op \<Rightarrow> bool" where
  "inherited assets x =
     (case image_uri x of
        None \<Rightarrow> False
      | Some uri \<Rightarrow> assets uri = None \<and> uri \<in> set object_prototype)"

text \<open>
  A component with value \<open>v\<close> and no call of \<open>onChangeValue\<close> yet, with its editor
  and before the editor exists.
\<close>

definition mounted :: "line list \<Rightarrow> unit component" where
  "mounted v =
     \<lparr>editorRef = Some (), mouseDown = False, capture = None, val = v, changes = []\<rparr>"

definition unmounted :: "line list \<Rightarrow> unit component" where
  "unmounted v =
     \<lparr>editorRef = None, mouseDown = False, capture = None, val = v, changes = []\<rparr>"

text \<open>
  The content of a Delta read unit by unit: every character of a string insert and
  every embed, each with the attributes of its operation. Operations without an
  insert have no content. \<open>is_document\<close>: every operation is an insert.
\<close>

datatype atom = AChar char | AEmbed "string \<rightharpoonup> jsval"

fun ins_units :: "ins \<Rightarrow> attrs \<Rightarrow> (atom \<times> attrs) list" where
  "ins_units (Text t) a = map (\<lambda>c. (AChar c, a)) t"
| "ins_units (Embed e) a = [(AEmbed e, a)]"

definition op_units :: "op \<Rightarrow> (atom \<times> attrs) list" where
  "op_units x =
     (case op_insert x of None \<Rightarrow> [] | Some i \<Rightarrow> ins_units i (or_empty (op_attributes x)))"

definition delta_units :: "delta \<Rightarrow> (atom \<times> attrs) list" where
  "delta_units d = concat (map op_units d)"

definition is_document :: "delta \<Rightarrow> bool" where
  "is_document d = list_all (\<lambda>x. op_insert x \<noteq> None \<and> op_delete x = None \<and> op_retain x = None) d"

text \<open>
  The units the words of the specification give to a list of lines: the segments
  of each line, then one line feed with the block attributes of the line.
  \<open>encoded_units\<close> leaves the line feed of the last line out when that line has no
  block attribute.
\<close>

definition segments_units :: "segment list \<Rightarrow> (atom \<times> attrs) list" where
  "segments_units ss = concat (map (\<lambda>s. ins_units (seg_insert s) (seg_attributes s)) ss)"

definition line_units :: "line \<Rightarrow> (atom \<times> attrs) list" where
  "line_units l = segments_units (segments l) @ [(AChar nl, line_attributes l)]"

definition encoded_units :: "line list \<Rightarrow> (atom \<times> attrs) list" where
  "encoded_units ls =
     (if ls = [] then []
      else concat (map line_units (butlast ls)) @ segments_units (segments (last ls)) @
           (if line_attributes (last ls) \<noteq> Map.empty
            then [(AChar nl, line_attributes (last ls))] else []))"

text \<open>
  A small engine for the examples. It stores the contents and the selection it is
  given and logs the calls that change it; its \<open>diff\<close> is empty for equal Deltas and
  otherwise inserts the whole second Delta and deletes the first; a position moves
  with the inserts and deletes at or before it. \<open>op_length\<close> and \<open>delta_length\<close>
  are \<open>Op.length\<close> and \<open>Delta.length\<close> of quill-delta.
\<close>

datatype call = SetContents delta | SetSelection nat nat

record quill =
  q_contents :: delta
  q_selection :: "(nat \<times> nat) option"
  q_focus :: bool
  q_calls :: "call list"

definition op_length :: "op \<Rightarrow> nat" where
  "op_length x =
     (case op_delete x of
        Some n \<Rightarrow> n
      | None \<Rightarrow>
          (case op_retain x of
             Some n \<Rightarrow> n
           | None \<Rightarrow> (case op_insert x of Some (Text t) \<Rightarrow> length t | _ \<Rightarrow> 1)))"

definition delta_length :: "delta \<Rightarrow> nat" where
  "delta_length d = sum_list (map op_length d)"

definition replace_all :: "delta \<Rightarrow> delta \<Rightarrow> delta" where
  "replace_all a b =
     (if a = b then []
      else b @ [\<lparr>op_insert = None, op_delete = Some (delta_length a), op_retain = None,
                 op_attributes = None\<rparr>])"

fun shift_position :: "delta \<Rightarrow> nat \<Rightarrow> nat \<Rightarrow> nat" where
  "shift_position [] offset index = index"
| "shift_position (x # xs) offset index =
     (if index < offset then index
      else if op_delete x \<noteq> None
        then shift_position xs offset (index - min (op_length x) (index - offset))
      else if op_retain x = None
        then shift_position xs (offset + op_length x) (index + op_length x)
      else shift_position xs (offset + op_length x) index)"

definition plain_engine :: "quill engine" where
  "plain_engine =
     \<lparr>getContents = q_contents,
      hasFocus = q_focus,
      getSelection = q_selection,
      setContents = (\<lambda>c q. q\<lparr>q_contents := c, q_calls := q_calls q @ [SetContents c]\<rparr>),
      setSelection = (\<lambda>i n q. q\<lparr>q_selection := Some (i, n),
                                  q_calls := q_calls q @ [SetSelection i n]\<rparr>),
      diff = replace_all,
      dlength = delta_length,
      transformPosition = (\<lambda>d i. shift_position d 0 i)\<rparr>"

text \<open>
  A component on that engine: the editor holds \<open>c\<close> and the selection \<open>sel\<close> and has
  the focus; the value is \<open>v\<close>.
\<close>

definition editing :: "delta \<Rightarrow> (nat \<times> nat) option \<Rightarrow> line list \<Rightarrow> quill component" where
  "editing c sel v =
     \<lparr>editorRef = Some \<lparr>q_contents = c, q_selection = sel, q_focus = True, q_calls = []\<rparr>,
      mouseDown = False, capture = None, val = v, changes = []\<rparr>"

text \<open>
  \<open>captured c evs\<close>: the content of the last text change of \<open>evs\<close>, or \<open>c\<close> when there
  is none. \<open>asset_documents v evs\<close>: the documents that the calls of \<open>replaceAssets\<close>
  among \<open>evs\<close> pass to \<open>onChangeValue\<close> when the editor exists and the value is \<open>v\<close>
  at first; each call works on the value of the last \<open>SetValue\<close> before it.
  \<open>user_edit t\<close>: the user has made the text \<open>t\<close>.
\<close>

fun captured :: "delta option \<Rightarrow> 'e event list \<Rightarrow> delta option" where
  "captured c [] = c"
| "captured c (TextChange editor d # evs) = captured (Some d) evs"
| "captured c (ev # evs) = captured c evs"

fun asset_documents :: "line list \<Rightarrow> 'e event list \<Rightarrow> line list list" where
  "asset_documents v [] = []"
| "asset_documents v (SetValue v' # evs) = asset_documents v' evs"
| "asset_documents v (ReplaceAssets assets # evs) =
     changes (replaceAssets assets (mounted v)) @ asset_documents v evs"
| "asset_documents v (ev # evs) = asset_documents v evs"

definition user_edit :: "string \<Rightarrow> quill event" where
  "user_edit t =
     TextChange
       \<lparr>q_contents = [text_op (t @ [nl]) None], q_selection = Some (length t, 0),
        q_focus = True, q_calls = []\<rparr>
       [text_op (t @ [nl]) None]"

text \<open>
  The lines on which the codec is a round trip. A segment is clean when its text is
  not empty and has no line feed. \<open>distinct_runs\<close>: no two neighbouring text
  segments of a line have equal attributes (the builder would join them).
  \<open>link l l'\<close>, for a line and the next one: \<open>l\<close> ends with a text segment that has
  the block attributes of \<open>l\<close> exactly when \<open>l'\<close> starts with a text segment that
  has them, and in that case they are empty (the builder then joins the text, the
  line feed and the next text into one string, which the decoder splits again).
  A last line with block attributes does not end with a text segment that has
  them.
\<close>

definition is_text_with :: "attrs \<Rightarrow> segment \<Rightarrow> bool" where
  "is_text_with a s = (case seg_insert s of Text t \<Rightarrow> seg_attributes s = a | Embed e \<Rightarrow> False)"

definition clean_segment :: "segment \<Rightarrow> bool" where
  "clean_segment s = (case seg_insert s of Text t \<Rightarrow> t \<noteq> [] \<and> nl \<notin> set t | Embed e \<Rightarrow> True)"

fun distinct_runs :: "segment list \<Rightarrow> bool" where
  "distinct_runs (s # s' # ss) =
     (\<not> (is_text_with (seg_attributes s) s \<and> is_text_with (seg_attributes s) s')
      \<and> distinct_runs (s' # ss))"
| "distinct_runs ss = True"

definition ends_with :: "attrs \<Rightarrow> line \<Rightarrow> bool" where
  "ends_with a l = (segments l \<noteq> [] \<and> is_text_with a (last (segments l)))"

definition starts_with :: "attrs \<Rightarrow> line \<Rightarrow> bool" where
  "starts_with a l = (segments l \<noteq> [] \<and> is_text_with a (hd (segments l)))"

definition link :: "line \<Rightarrow> line \<Rightarrow> bool" where
  "link l l' =
     ((ends_with (line_attributes l) l = starts_with (line_attributes l) l')
      \<and> (ends_with (line_attributes l) l \<longrightarrow> line_attributes l = Map.empty))"

fun joined :: "line list \<Rightarrow> bool" where
  "joined [] = True"
| "joined [l] = (line_attributes l \<noteq> Map.empty \<longrightarrow> \<not> ends_with (line_attributes l) l)"
| "joined (l # l' # ls) = (link l l' \<and> joined (l' # ls))"

definition line_ok :: "line \<Rightarrow> bool" where
  "line_ok l = (list_all clean_segment (segments l) \<and> distinct_runs (segments l))"

definition canonical :: "line list \<Rightarrow> bool" where
  "canonical ls = (list_all line_ok ls \<and> joined ls)"

text \<open>
  For the proofs: the attributes as \<open>Delta.insert\<close> stores them, the operation it
  makes of an insert, whether \<open>push\<close> joins an insert to the last operation, and
  the invariant \<open>shape\<close> that relates the last operation of the Delta built so far
  to the segments the decoder holds after reading it (\<open>ds\<close>).
\<close>

definition stored :: "attrs \<Rightarrow> attrs option" where
  "stored a = (if a = Map.empty then None else Some a)"

definition ins_op :: "ins \<Rightarrow> attrs \<Rightarrow> op" where
  "ins_op i a = \<lparr>op_insert = Some i, op_delete = None, op_retain = None,
     op_attributes = stored a\<rparr>"

definition seg_op :: "segment \<Rightarrow> op" where
  "seg_op s = ins_op (seg_insert s) (seg_attributes s)"

definition merges :: "delta \<Rightarrow> ins \<Rightarrow> attrs \<Rightarrow> bool" where
  "merges d i a =
     (d \<noteq> [] \<and> (\<exists>u. op_insert (last d) = Some (Text u)) \<and> (\<exists>t. i = Text t)
      \<and> op_attributes (last d) = stored a)"

definition all_nl :: "string \<Rightarrow> bool" where
  "all_nl s = list_all (\<lambda>c. c = nl) s"

definition shape :: "delta \<Rightarrow> segment list \<Rightarrow> bool" where
  "shape d segs =
     (is_document d \<and>
      (if segs = [] then (\<forall>d' x u. d = d' @ [x] \<longrightarrow> op_insert x = Some (Text u) \<longrightarrow> all_nl u)
       else (\<exists>d' x. d = d' @ [x] \<and> op_attributes x = stored (seg_attributes (last segs)) \<and>
              (case seg_insert (last segs) of
                 Embed e \<Rightarrow> op_insert x = Some (Embed e)
               | Text t \<Rightarrow> (\<exists>u. op_insert x = Some (Text u) \<and> \<not> all_nl u)))))"

definition ds :: "delta \<Rightarrow> dstate" where
  "ds d = foldl decode_op ([], []) d"

text \<open>
  The Deltas on whose decoding the codec is a round trip. \<open>normal\<close> is the form
  that the builder of quill-delta keeps: inserts only, no empty string, no
  attributes object without keys, and no two neighbouring string inserts with equal
  attributes. \<open>plain_mixed\<close>: a string that has line feeds and other characters
  has no attributes. \<open>bare\<close>: a string of line feeds without attributes.
\<close>

definition is_text_op :: "op \<Rightarrow> bool" where
  "is_text_op x = (\<exists>u. op_insert x = Some (Text u))"

definition op_ok :: "op \<Rightarrow> bool" where
  "op_ok x = (op_insert x \<noteq> Some (Text []) \<and> op_attributes x \<noteq> Some Map.empty)"

fun separated :: "delta \<Rightarrow> bool" where
  "separated (x # y # d) =
     (\<not> (is_text_op x \<and> is_text_op y \<and> op_attributes x = op_attributes y)
      \<and> separated (y # d))"
| "separated d = True"

definition normal :: "delta \<Rightarrow> bool" where
  "normal d = (is_document d \<and> list_all op_ok d \<and> separated d)"

definition plain_mixed :: "delta \<Rightarrow> bool" where
  "plain_mixed d =
     list_all (\<lambda>x. case op_insert x of
                     Some (Text u) \<Rightarrow> nl \<in> set u \<and> \<not> all_nl u \<longrightarrow> op_attributes x = None
                   | _ \<Rightarrow> True) d"

definition bare :: "op \<Rightarrow> bool" where
  "bare x = (\<exists>u. op_insert x = Some (Text u) \<and> all_nl u \<and> op_attributes x = None)"

text \<open>
  For the proofs: the units of the state of the decoder, and those of the pieces
  of a split string as \<open>split_loop\<close> adds them.
\<close>

definition state_units :: "dstate \<Rightarrow> (atom \<times> attrs) list" where
  "state_units st = concat (map line_units (fst st)) @ segments_units (snd st)"

fun pieces_units :: "nat \<Rightarrow> string list \<Rightarrow> attrs \<Rightarrow> (atom \<times> attrs) list" where
  "pieces_units i [] a = []"
| "pieces_units i (p # ps) a =
     (if i \<noteq> 0 then [(AChar nl, Map.empty)] else []) @ map (\<lambda>c. (AChar c, a)) p
     @ pieces_units (Suc i) ps a"

section \<open>Evaluation\<close>

lemmas codec_eval =
  encodeContent_def decodeContent_def delta_insert_def push_def push_at_def
  insert_segments_def decode_op_def decode_finish_def close_line_def push_segment_def
  or_empty_def nl_def removeEmptyLines_def empty_line_def
  text_op_def image_op_def text_seg_def image_seg_def inherited_seg_def mk_line_def

section \<open>The decoder fills in missing attributes\<close>

lemma close_line_parts:
  "concat (map segments (fst (close_line a st))) @ snd (close_line a st)
     = concat (map segments (fst st)) @ snd st"
  "map line_attributes (fst (close_line a st)) = map line_attributes (fst st) @ [a]"
  by (simp_all add: close_line_def)

lemma push_segment_parts:
  "concat (map segments (fst (push_segment x a st))) @ snd (push_segment x a st)
     = concat (map segments (fst st)) @ snd st @ [\<lparr>seg_insert = x, seg_attributes = a\<rparr>]"
  "map line_attributes (fst (push_segment x a st)) = map line_attributes (fst st)"
  by (simp_all add: push_segment_def)

lemma close_lines_parts:
  "concat (map segments (fst ((close_line a ^^ n) st))) @ snd ((close_line a ^^ n) st)
     = concat (map segments (fst st)) @ snd st"
  "map line_attributes (fst ((close_line a ^^ n) st))
     = map line_attributes (fst st) @ replicate n a"
  by (induction n) (simp_all add: close_line_parts replicate_append_same)

lemma split_loop_segments:
  "concat (map segments (fst (split_loop i ps a st))) @ snd (split_loop i ps a st)
     = concat (map segments (fst st)) @ snd st
       @ map (\<lambda>p. \<lparr>seg_insert = Text p, seg_attributes = a\<rparr>) ps"
  by (induction i ps a st rule: split_loop.induct)
     (simp_all add: close_line_parts push_segment_parts)

lemma split_loop_line_attributes:
  "map line_attributes (fst (split_loop i ps a st))
     = map line_attributes (fst st)
       @ replicate (if i = 0 then length ps - 1 else length ps) Map.empty"
proof (induction i ps a st rule: split_loop.induct)
  case (1 i a st)
  then show ?case by simp
next
  case (2 i p ps a st)
  show ?case
    unfolding split_loop.simps "2.IH"
    by (simp add: close_line_parts push_segment_parts replicate_append_same)
qed

lemma length_split_nl: "length (split_nl s) = Suc (length (filter (\<lambda>c. c = nl) s))"
  by (induction s) (auto split: list.splits)

lemma decode_op_segments:
  "concat (map segments (fst (decode_op st x))) @ snd (decode_op st x)
     = concat (map segments (fst st)) @ snd st @ op_segments x"
  unfolding decode_op_def op_segments_def or_empty_def
  by (simp add: close_lines_parts split_loop_segments push_segment_parts
      split: option.splits ins.splits)

lemma decode_op_line_attributes:
  "map line_attributes (fst (decode_op st x))
     = map line_attributes (fst st) @ op_line_attributes x"
  unfolding decode_op_def op_line_attributes_def or_empty_def
  by (simp add: close_lines_parts split_loop_line_attributes push_segment_parts
      length_split_nl split: option.splits ins.splits)

lemma foldl_decode_op_segments:
  "concat (map segments (fst (foldl decode_op st d))) @ snd (foldl decode_op st d)
     = concat (map segments (fst st)) @ snd st @ concat (map op_segments d)"
  by (induction d arbitrary: st) (simp_all add: decode_op_segments)

lemma foldl_decode_op_line_attributes:
  "map line_attributes (fst (foldl decode_op st d))
     = map line_attributes (fst st) @ concat (map op_line_attributes d)"
  by (induction d arbitrary: st) (simp_all add: decode_op_line_attributes)

text \<open>
  An operation without attributes field gives the empty map to every segment it
  adds and to every line it closes.
\<close>

lemma op_without_attributes:
  assumes "op_attributes x = None"
  shows "(\<forall>s \<in> set (op_segments x). seg_attributes s = Map.empty)
     \<and> (\<forall>a \<in> set (op_line_attributes x). a = Map.empty)"
  using assms unfolding op_segments_def op_line_attributes_def
  by (auto simp: Let_def split: option.splits ins.splits if_splits)

text \<open>
  C9. \<open>decodeContent\<close> of an absent Delta is the empty list. For every Delta, the
  segments of the output, read line after line, are the segments of the operations
  in their order: every segment has the attributes of the operation it comes from,
  and the empty map when that operation has no attributes field. The attributes of
  the lines are, in their order, those of the lines each operation closes: the
  attributes of the operation, or the empty map when it has none, for a string of
  line feeds, and the empty map for a line feed inside another string. The line
  that holds the segments still open at the end, if there are any, has the empty
  map.
\<close>

theorem decodeContent_attributes_defined:
  "decodeContent None = []
   \<and> concat (map segments (decodeContent (Some d))) = concat (map op_segments d)
   \<and> map line_attributes (decodeContent (Some d))
       = concat (map op_line_attributes d)
         @ (if snd (foldl decode_op ([], []) d) = [] then [] else [Map.empty])"
proof -
  let ?st = "foldl decode_op ([], []) d"
  have s: "concat (map segments (fst ?st)) @ snd ?st = concat (map op_segments d)"
    using foldl_decode_op_segments [of "([], [])" d] by simp
  have l: "map line_attributes (fst ?st) = concat (map op_line_attributes d)"
    using foldl_decode_op_line_attributes [of "([], [])" d] by simp
  have "concat (map segments (decode_finish ?st)) = concat (map op_segments d)"
    using s by (auto simp: decode_finish_def close_line_def)
  moreover have "map line_attributes (decode_finish ?st)
      = concat (map op_line_attributes d) @ (if snd ?st = [] then [] else [Map.empty])"
    using l by (simp add: decode_finish_def close_line_def)
  ultimately show ?thesis
    by (simp add: decodeContent_def)
qed

text \<open>
  An operation without attributes between two operations with attributes: the
  image, which has none, gets the empty map, the text keeps its own, and the line
  has the attributes of the line feed.
\<close>

theorem decodeContent_attributes_defined_witness:
  "decodeContent
       (Some [text_op ''a'' (Some [''bold'' \<mapsto> JBoolean True]), image_op ''u'',
              text_op [nl] (Some [''header'' \<mapsto> JNumber 1])])
     = [mk_line [text_seg ''a'' [''bold'' \<mapsto> JBoolean True], image_seg ''u'']
          [''header'' \<mapsto> JNumber 1]]
   \<and> map seg_attributes
        (concat (map op_segments
           [text_op ''a'' (Some [''bold'' \<mapsto> JBoolean True]), image_op ''u'',
            text_op [nl] (Some [''header'' \<mapsto> JNumber 1])]))
     = [[''bold'' \<mapsto> JBoolean True], Map.empty]
   \<and> concat (map op_line_attributes
        [text_op ''a'' (Some [''bold'' \<mapsto> JBoolean True]), image_op ''u'',
         text_op [nl] (Some [''header'' \<mapsto> JNumber 1])])
     = [[''header'' \<mapsto> JNumber 1]]"
  using decodeContent_attributes_defined
    [of "[text_op ''a'' (Some [''bold'' \<mapsto> JBoolean True]), image_op ''u'',
          text_op [nl] (Some [''header'' \<mapsto> JNumber 1])]"]
  by (simp add: codec_eval op_segments_def op_line_attributes_def)

section \<open>Replacing assets\<close>

lemmas component_eval =
  content_def replaceAssets_def replace_op_def property_def object_prototype_def
  image_uri_def matching_def inherited_def mounted_def capture_effect_def

lemma replace_op_snd:
  "snd (replace_op assets x) = (matching assets x \<or> inherited assets x)"
  unfolding replace_op_def property_def matching_def inherited_def image_uri_def
  by (auto split: option.splits ins.splits jsval.splits)

lemma replace_op_fst_other:
  "\<not> matching assets x \<Longrightarrow> \<not> inherited assets x \<Longrightarrow> fst (replace_op assets x) = x"
  unfolding replace_op_def property_def matching_def inherited_def image_uri_def
  by (auto split: option.splits ins.splits jsval.splits)

lemma replace_op_fst_match:
  "image_uri x = Some u \<Longrightarrow> assets u = Some r \<Longrightarrow> r \<noteq> [] \<Longrightarrow>
     fst (replace_op assets x) = x\<lparr>op_insert := Some (Embed [''image'' \<mapsto> JString r])\<rparr>"
  unfolding replace_op_def property_def image_uri_def
  by (auto split: option.splits ins.splits jsval.splits)

text \<open>
  An image operation whose URI the mapping sends to the empty string is returned as
  it is, without setting \<open>isChanged\<close>: the empty string is not truthy.
\<close>

lemma replace_op_empty_string:
  "image_uri x = Some u \<Longrightarrow> assets u = Some [] \<Longrightarrow> replace_op assets x = (x, False)"
  unfolding replace_op_def property_def image_uri_def
  by (auto split: option.splits ins.splits jsval.splits)

text \<open>
  An image operation whose URI is no key of the mapping but the name of a member of
  \<open>Object.prototype\<close> sets \<open>isChanged\<close> and gets that member as its image.
\<close>

lemma replace_op_inherited:
  "image_uri x = Some u \<Longrightarrow> assets u = None \<Longrightarrow> u \<in> set object_prototype \<Longrightarrow>
     replace_op assets x = (x\<lparr>op_insert := Some (Embed [''image'' \<mapsto> JInherited u])\<rparr>, True)"
  unfolding replace_op_def property_def image_uri_def
  by (auto split: option.splits ins.splits jsval.splits)

text \<open>
  When no image operation of the content has a URI that the mapping replaces by a
  string that is not empty, and none has a URI that names a member of
  \<open>Object.prototype\<close> without being a key of the mapping, \<open>replaceAssets\<close> leaves the
  whole state as it is: the editor, the value and the log of \<open>onChangeValue\<close> calls.
\<close>

lemma replaceAssets_no_replacement:
  assumes "\<forall>x \<in> set (content s). \<not> matching assets x \<and> \<not> inherited assets x"
  shows "replaceAssets assets s = s"
  using assms unfolding replaceAssets_def
  by (simp add: list_ex_iff replace_op_snd split: option.splits)

text \<open>
  C5. The path without a match is not taken for every mapping that has no key among
  the image URIs: the property access \<open>assets[uri]\<close> also finds what the mapping
  inherits from \<open>Object.prototype\<close>. With the value \<open>[image toString]\<close> and the mapping
  \<open>{a: b}\<close>, the only operation of the content is an image whose URI is no key of
  the mapping; \<open>replaceAssets\<close> nevertheless calls \<open>onChangeValue\<close>, once, with a
  document in which the image is the inherited function instead of a URI.
\<close>

theorem replaceAssets_inherited_member:
  "content (mounted [mk_line [image_seg ''toString''] Map.empty]) = [image_op ''toString'']
   \<and> [''a'' \<mapsto> ''b''] ''toString'' = None
   \<and> \<not> matching [''a'' \<mapsto> ''b''] (image_op ''toString'')
   \<and> changes (replaceAssets [''a'' \<mapsto> ''b'']
        (mounted [mk_line [image_seg ''toString''] Map.empty]))
       = [[mk_line [inherited_seg ''toString''] Map.empty]]"
  by (simp add: component_eval codec_eval)

text \<open>
  C10. An empty string as replacement is no match (\<open>replace_op\<close> returns the image
  operation as it is, without setting \<open>isChanged\<close>), but the call is not always
  without effect when every key of the mapping that is an image URI maps to the
  empty string. With the value \<open>[image a, image valueOf]\<close> and the mapping \<open>{a: ''}\<close>,
  the only key that matches maps to the empty string; \<open>replaceAssets\<close> nevertheless
  calls \<open>onChangeValue\<close>, because the property access finds the \<open>valueOf\<close> that the
  mapping inherits from \<open>Object.prototype\<close>.
\<close>

theorem replaceAssets_empty_string_with_inherited_member:
  "content (mounted [mk_line [image_seg ''a'', image_seg ''valueOf''] Map.empty])
     = [image_op ''a'', image_op ''valueOf'']
   \<and> [''a'' \<mapsto> ''''] ''a'' = Some '''' \<and> [''a'' \<mapsto> ''''] ''valueOf'' = None
   \<and> replace_op [''a'' \<mapsto> ''''] (image_op ''a'') = (image_op ''a'', False)
   \<and> changes (replaceAssets [''a'' \<mapsto> '''']
        (mounted [mk_line [image_seg ''a'', image_seg ''valueOf''] Map.empty]))
       = [[mk_line [image_seg ''a'', inherited_seg ''valueOf''] Map.empty]]"
  by (simp add: component_eval codec_eval)

text \<open>
  C4, as stated, fails before the editor exists: \<open>replaceAssets\<close> returns at once
  and \<open>onChangeValue\<close> is not called, although an image of the content has a
  replacement.
\<close>

theorem replaceAssets_unmounted_counterexample:
  "(\<exists>x \<in> set (content (unmounted [mk_line [image_seg ''a''] Map.empty])).
      matching [''a'' \<mapsto> ''b''] x)
   \<and> changes (replaceAssets [''a'' \<mapsto> ''b''] (unmounted [mk_line [image_seg ''a''] Map.empty]))
       = []"
  by (simp add: unmounted_def component_eval codec_eval)

text \<open>
  C4, amended. Before the editor exists, \<open>replaceAssets\<close> leaves the whole state as
  it is and calls nothing. When the editor exists and an image operation of the
  content has a replacement, \<open>replaceAssets\<close> calls \<open>onChangeValue\<close> once, with the
  decoding of a list of operations as long as the content. There every image
  operation that has a replacement is that operation with \<open>{image: replacement}\<close> as
  its insert, and every operation that has none is the operation of the content,
  unless it is an image whose URI names a member of \<open>Object.prototype\<close>, of which
  nothing is said. Nothing else of the state changes.
\<close>

theorem replaceAssets_frame:
  "(editorRef s = None \<longrightarrow> replaceAssets assets s = s) \<and>
   (editorRef s \<noteq> None \<longrightarrow> (\<exists>x \<in> set (content s). matching assets x) \<longrightarrow>
      (\<exists>ops'. replaceAssets assets s = s\<lparr>changes := changes s @ [decodeContent (Some ops')]\<rparr>
         \<and> length ops' = length (content s)
         \<and> (\<forall>i < length (content s).
               (\<not> matching assets (content s ! i) \<and> \<not> inherited assets (content s ! i)
                  \<longrightarrow> ops' ! i = content s ! i) \<and>
               (\<forall>u r. image_uri (content s ! i) = Some u \<and> assets u = Some r \<and> r \<noteq> [] \<longrightarrow>
                  ops' ! i
                    = (content s ! i)\<lparr>op_insert := Some (Embed [''image'' \<mapsto> JString r])\<rparr>))))"
proof (intro conjI impI)
  assume "editorRef s = None"
  then show "replaceAssets assets s = s"
    by (simp add: replaceAssets_def)
next
  assume e: "editorRef s \<noteq> None" and m: "\<exists>x \<in> set (content s). matching assets x"
  let ?ops = "map fst (map (replace_op assets) (content s))"
  have "replaceAssets assets s = s\<lparr>changes := changes s @ [decodeContent (Some ?ops)]\<rparr>"
    using e m unfolding replaceAssets_def
    by (auto simp: list_ex_iff replace_op_snd Let_def split: option.splits)
  moreover have "length ?ops = length (content s)"
    by simp
  moreover have "\<forall>i < length (content s).
      (\<not> matching assets (content s ! i) \<and> \<not> inherited assets (content s ! i)
         \<longrightarrow> ?ops ! i = content s ! i) \<and>
      (\<forall>u r. image_uri (content s ! i) = Some u \<and> assets u = Some r \<and> r \<noteq> [] \<longrightarrow>
         ?ops ! i = (content s ! i)\<lparr>op_insert := Some (Embed [''image'' \<mapsto> JString r])\<rparr>)"
    by (simp add: replace_op_fst_other replace_op_fst_match)
  ultimately show "\<exists>ops'. replaceAssets assets s
         = s\<lparr>changes := changes s @ [decodeContent (Some ops')]\<rparr>
      \<and> length ops' = length (content s)
      \<and> (\<forall>i < length (content s).
            (\<not> matching assets (content s ! i) \<and> \<not> inherited assets (content s ! i)
               \<longrightarrow> ops' ! i = content s ! i) \<and>
            (\<forall>u r. image_uri (content s ! i) = Some u \<and> assets u = Some r \<and> r \<noteq> [] \<longrightarrow>
               ops' ! i
                 = (content s ! i)\<lparr>op_insert := Some (Embed [''image'' \<mapsto> JString r])\<rparr>))"
    by blast
qed

theorem replaceAssets_frame_witness:
  "editorRef (unmounted [mk_line [image_seg ''a''] Map.empty]) = None
   \<and> replaceAssets [''a'' \<mapsto> ''b''] (unmounted [mk_line [image_seg ''a''] Map.empty])
       = unmounted [mk_line [image_seg ''a''] Map.empty]
   \<and> editorRef (mounted [mk_line [text_seg ''x'' Map.empty, image_seg ''a'', image_seg ''c''] Map.empty])
       = Some ()
   \<and> (\<exists>x \<in> set (content
          (mounted [mk_line [text_seg ''x'' Map.empty, image_seg ''a'', image_seg ''c''] Map.empty])).
         matching [''a'' \<mapsto> ''b''] x)
   \<and> (\<exists>ops'. replaceAssets [''a'' \<mapsto> ''b'']
          (mounted [mk_line [text_seg ''x'' Map.empty, image_seg ''a'', image_seg ''c''] Map.empty])
        = (mounted [mk_line [text_seg ''x'' Map.empty, image_seg ''a'', image_seg ''c''] Map.empty])
            \<lparr>changes := [decodeContent (Some ops')]\<rparr>
        \<and> ops' ! 0 = text_op ''x'' None \<and> ops' ! 1 = image_op ''b'' \<and> ops' ! 2 = image_op ''c'')"
proof -
  let ?u = "unmounted [mk_line [image_seg ''a''] Map.empty]"
  let ?s = "mounted [mk_line [text_seg ''x'' Map.empty, image_seg ''a'', image_seg ''c''] Map.empty]"
  have u: "editorRef ?u = None"
    by (simp add: unmounted_def)
  have c: "content ?s = [text_op ''x'' None, image_op ''a'', image_op ''c'']"
    by (simp add: component_eval codec_eval)
  have e: "editorRef ?s = Some ()"
    by (simp add: mounted_def)
  have m: "\<exists>x \<in> set (content ?s). matching [''a'' \<mapsto> ''b''] x"
    unfolding c by (simp add: component_eval codec_eval)
  have "replaceAssets [''a'' \<mapsto> ''b''] ?u = ?u"
    using replaceAssets_frame [of ?u "[''a'' \<mapsto> ''b'']"] u by simp
  moreover obtain ops' where r: "replaceAssets [''a'' \<mapsto> ''b''] ?s
        = ?s\<lparr>changes := changes ?s @ [decodeContent (Some ops')]\<rparr>"
    and n: "\<forall>i < length (content ?s).
            (\<not> matching [''a'' \<mapsto> ''b''] (content ?s ! i)
               \<and> \<not> inherited [''a'' \<mapsto> ''b''] (content ?s ! i) \<longrightarrow> ops' ! i = content ?s ! i) \<and>
            (\<forall>u r. image_uri (content ?s ! i) = Some u \<and> [''a'' \<mapsto> ''b''] u = Some r \<and> r \<noteq> []
               \<longrightarrow> ops' ! i
                 = (content ?s ! i)\<lparr>op_insert := Some (Embed [''image'' \<mapsto> JString r])\<rparr>)"
    using replaceAssets_frame [of ?s "[''a'' \<mapsto> ''b'']"] e m by auto
  have "ops' ! 0 = text_op ''x'' None"
    using n [rule_format, of 0] unfolding c by (simp add: component_eval codec_eval)
  moreover have "ops' ! 1 = image_op ''b''"
    using n [rule_format, of 1] unfolding c by (simp add: component_eval codec_eval)
  moreover have "ops' ! 2 = image_op ''c''"
    using n [rule_format, of 2] unfolding c by (simp add: component_eval codec_eval)
  moreover have "changes ?s = []"
    by (simp add: mounted_def)
  ultimately show ?thesis
    using u e m r by auto
qed

lemma removeEmptyLines_no_trailing:
  "removeEmptyLines ls = [] \<or> \<not> empty_line (last (removeEmptyLines ls))"
proof (cases "dropWhile empty_line (rev ls)")
  case Nil
  then show ?thesis by (simp add: removeEmptyLines_def)
next
  case (Cons y ys)
  then have "\<not> empty_line y"
    by (metis dropWhile_eq_Cons_conv)
  then show ?thesis
    using Cons by (simp add: removeEmptyLines_def)
qed

text \<open>
  C2. What \<open>removeEmptyLines\<close> returns has no trailing empty line, and the
  propagation of a text change applies it to the decoded capture. \<open>decodeContent\<close>
  alone does not have the property, and \<open>replaceAssets\<close> passes its result to
  \<open>onChangeValue\<close> as it is. The value \<open>[image a], [], []\<close> encodes to the image and
  one string of two line feeds; after \<open>replaceAssets\<close> the last line passed to
  \<open>onChangeValue\<close> has no segment and no attribute, and \<open>removeEmptyLines\<close> would
  have dropped it.
\<close>

theorem replaceAssets_keeps_trailing_empty_line:
  "changes (replaceAssets [''a'' \<mapsto> ''b'']
      (mounted [mk_line [image_seg ''a''] Map.empty, mk_line [] Map.empty, mk_line [] Map.empty]))
     = [[mk_line [image_seg ''b''] Map.empty, mk_line [] Map.empty]]
   \<and> empty_line (mk_line [] Map.empty)
   \<and> removeEmptyLines [mk_line [image_seg ''b''] Map.empty, mk_line [] Map.empty]
       = [mk_line [image_seg ''b''] Map.empty]"
  by (simp add: component_eval codec_eval)

section \<open>The shape of the encoding\<close>

lemma or_empty_stored: "or_empty (if a = Map.empty then None else Some a) = a"
  by (simp add: or_empty_def)

lemma push_document:
  assumes "is_document d" and "op_insert x = Some i" and "op_delete x = None" and "op_retain x = None"
  shows "is_document (push d x) \<and> delta_units (push d x) = delta_units d @ op_units x"
proof (cases "d = []")
  case True
  then show ?thesis
    using assms by (simp add: push_def is_document_def delta_units_def)
next
  case False
  then obtain d' y where d: "d = d' @ [y]"
    by (metis rev_exhaust)
  have y: "op_insert y \<noteq> None" "op_delete y = None" "op_retain y = None" and d': "is_document d'"
    using assms(1) unfolding d is_document_def by simp_all
  have p: "push d x = push_at d [] x"
    using assms y unfolding d push_def by (simp split: option.splits)
  show ?thesis
    unfolding p using assms y d'
    unfolding d push_at_def is_document_def delta_units_def op_units_def
    by (auto simp: Let_def split: option.splits ins.splits)
qed

lemma delta_insert_document:
  assumes "is_document d"
  shows "is_document (delta_insert d i a) \<and>
         delta_units (delta_insert d i a) = delta_units d @ ins_units i a"
proof (cases "i = Text []")
  case True
  then show ?thesis using assms by (simp add: delta_insert_def)
next
  case False
  then show ?thesis
    using push_document [OF assms, of
        "\<lparr>op_insert = Some i, op_delete = None, op_retain = None,
          op_attributes = (if a = Map.empty then None else Some a)\<rparr>" i]
    by (simp add: delta_insert_def op_units_def or_empty_stored)
qed

lemma insert_segments_document:
  "is_document d \<Longrightarrow> is_document (insert_segments d ss) \<and>
     delta_units (insert_segments d ss) = delta_units d @ segments_units ss"
proof (induction ss arbitrary: d)
  case Nil
  then show ?case by (simp add: insert_segments_def segments_units_def)
next
  case (Cons s ss)
  have 1: "is_document (delta_insert d (seg_insert s) (seg_attributes s))"
    and 2: "delta_units (delta_insert d (seg_insert s) (seg_attributes s))
             = delta_units d @ ins_units (seg_insert s) (seg_attributes s)"
    using delta_insert_document [OF Cons.prems] by simp_all
  show ?case
    using Cons.IH [OF 1] 2 by (simp add: insert_segments_def segments_units_def)
qed

lemma encode_lines_units:
  assumes "is_document d"
  shows "is_document (fst (encode_lines i ls (d, a))) \<and>
     delta_units (fst (encode_lines i ls (d, a))) =
       delta_units d @
       (if ls = [] then []
        else (if i \<noteq> 0 then [(AChar nl, a)] else []) @
             concat (map line_units (butlast ls)) @ segments_units (segments (last ls))) \<and>
     snd (encode_lines i ls (d, a)) = (if ls = [] then a else line_attributes (last ls))"
  using assms
proof (induction ls arbitrary: i d a)
  case Nil
  then show ?case by simp
next
  case (Cons l ls)
  let ?d1 = "if i \<noteq> 0 then delta_insert d (Text [nl]) a else d"
  let ?d2 = "insert_segments ?d1 (segments l)"
  have d1: "is_document ?d1"
    and u1: "delta_units ?d1 = delta_units d @ (if i \<noteq> 0 then [(AChar nl, a)] else [])"
    using delta_insert_document [OF Cons.prems, of "Text [nl]" a] Cons.prems by simp_all
  have d2: "is_document ?d2"
    and u2: "delta_units ?d2 = delta_units ?d1 @ segments_units (segments l)"
    using insert_segments_document [OF d1] by simp_all
  show ?case
    using Cons.IH [OF d2, of "Suc i" "line_attributes l"] u1 u2
    by (simp add: line_units_def)
qed

text \<open>
  C7, amended. Read unit by unit, the Delta of \<open>encodeContent\<close> is, line by line, the
  segments of the line followed by one line feed with the block attributes of the
  line; only the last line has no line feed when its block attributes are empty.
  The Delta holds inserts only.
\<close>

theorem encodeContent_units:
  "is_document (encodeContent ls) \<and> delta_units (encodeContent ls) = encoded_units ls"
proof -
  have e: "is_document []" by (simp add: is_document_def)
  obtain d a where r: "encode_lines 0 ls ([], Map.empty) = (d, a)"
    by (cases "encode_lines 0 ls ([], Map.empty)")
  have d: "is_document d"
    and u: "delta_units d = (if ls = [] then []
        else concat (map line_units (butlast ls)) @ segments_units (segments (last ls)))"
    and a: "a = (if ls = [] then Map.empty else line_attributes (last ls))"
    using encode_lines_units [OF e, of 0 ls Map.empty] unfolding r
    by (simp_all add: delta_units_def)
  show ?thesis
    using delta_insert_document [OF d, of "Text [nl]" a] d u a
    unfolding encodeContent_def r encoded_units_def
    by (cases "ls = []") simp_all
qed

text \<open>
  C7, as stated, fails for a last line without block attributes: no line feed
  follows its segments.
\<close>

theorem encodeContent_last_line_counterexample:
  "encodeContent [mk_line [text_seg ''a'' Map.empty] Map.empty] = [text_op ''a'' None]
   \<and> delta_units (encodeContent [mk_line [text_seg ''a'' Map.empty] Map.empty])
       \<noteq> concat (map line_units [mk_line [text_seg ''a'' Map.empty] Map.empty])"
  by (simp add: codec_eval delta_units_def op_units_def line_units_def segments_units_def)

section \<open>The effect of a value change\<close>

lemmas engine_eval = plain_engine_def replace_all_def delta_length_def op_length_def
  editing_def content_effect_def content_def

text \<open>
  C8. When the diff between the encoding of the editor's contents, decoded and
  without trailing empty lines, and the content of the value has length zero, the
  effect returns the state as it is, whatever the engine: nothing of the editor is
  called, so its contents and its selection are what they were.
\<close>

theorem content_effect_skipped:
  assumes "\<forall>editor. editorRef s = Some editor \<longrightarrow>
     dlength E
       (diff E (encodeContent (removeEmptyLines (decodeContent (Some (getContents E editor)))))
          (content s)) = 0"
  shows "content_effect E s = s"
  using assms unfolding content_effect_def
  by (simp split: option.splits)

theorem content_effect_skipped_witness:
  "dlength plain_engine
     (diff plain_engine
        (encodeContent (removeEmptyLines (decodeContent (Some [text_op (''ab'' @ [nl]) None]))))
        (content (editing [text_op (''ab'' @ [nl]) None] (Some (1, 0))
           [mk_line [text_seg ''ab'' Map.empty] Map.empty]))) = 0
   \<and> content_effect plain_engine
        (editing [text_op (''ab'' @ [nl]) None] (Some (1, 0))
           [mk_line [text_seg ''ab'' Map.empty] Map.empty])
       = editing [text_op (''ab'' @ [nl]) None] (Some (1, 0))
           [mk_line [text_seg ''ab'' Map.empty] Map.empty]"
proof -
  let ?s = "editing [text_op (''ab'' @ [nl]) None] (Some (1, 0))
           [mk_line [text_seg ''ab'' Map.empty] Map.empty]"
  have z: "dlength plain_engine
     (diff plain_engine
        (encodeContent (removeEmptyLines (decodeContent (Some [text_op (''ab'' @ [nl]) None]))))
        (content ?s)) = 0"
    by (simp add: engine_eval codec_eval)
  have "\<forall>editor. editorRef ?s = Some editor \<longrightarrow>
     dlength plain_engine
       (diff plain_engine
          (encodeContent (removeEmptyLines (decodeContent (Some (getContents plain_engine editor)))))
          (content ?s)) = 0"
    using z by (auto simp: editing_def plain_engine_def)
  from content_effect_skipped [OF this] z show ?thesis by simp
qed

text \<open>
  C3. When the effect resets the contents of a focused editor that has a
  selection, the index it sets is the old index transformed through the diff from
  the contents the editor has \<^emph>\<open>after\<close> \<open>setContents\<close> to the content: \<open>getContents\<close>
  is called on the editor that was just reset. The contents before the reset do
  not enter the diff. On the engine of the examples, which stores the content as
  it is, the index stays 2 where the diff from the old contents gives 3.
\<close>

theorem content_effect_selection:
  assumes "editorRef s = Some editor" and "\<not> mouseDown s"
    and "dlength E
       (diff E (encodeContent (removeEmptyLines (decodeContent (Some (getContents E editor)))))
          (content s)) \<noteq> 0"
    and "hasFocus E editor" and "getSelection E editor = Some (index, len)"
  shows "editorRef (content_effect E s) =
     Some (setSelection E
       (transformPosition E
          (diff E (getContents E (setContents E (content s) editor)) (content s)) index)
       len (setContents E (content s) editor))"
  using assms unfolding content_effect_def
  by (simp add: Let_def)

theorem content_effect_selection_witness:
  "(\<exists>q. editorRef (content_effect plain_engine
        (editing [text_op (''ab'' @ [nl]) None] (Some (2, 0))
           [mk_line [text_seg ''xab'' Map.empty] Map.empty])) = Some q
      \<and> q_contents q = [text_op ''xab'' None]
      \<and> q_selection q = Some (2, 0)
      \<and> q_calls q = [SetContents [text_op ''xab'' None], SetSelection 2 0])
   \<and> transformPosition plain_engine
        (diff plain_engine [text_op (''ab'' @ [nl]) None] [text_op ''xab'' None]) 2 = 3"
proof -
  let ?s = "editing [text_op (''ab'' @ [nl]) None] (Some (2, 0))
           [mk_line [text_seg ''xab'' Map.empty] Map.empty]"
  let ?q = "\<lparr>q_contents = [text_op (''ab'' @ [nl]) None], q_selection = Some (2, 0),
            q_focus = True, q_calls = []\<rparr>"
  have 1: "editorRef ?s = Some ?q" and 2: "\<not> mouseDown ?s"
    by (simp_all add: editing_def)
  have 3: "dlength plain_engine
       (diff plain_engine
          (encodeContent (removeEmptyLines (decodeContent (Some (getContents plain_engine ?q)))))
          (content ?s)) \<noteq> 0"
    by (simp add: engine_eval codec_eval)
  have 4: "hasFocus plain_engine ?q" and 5: "getSelection plain_engine ?q = Some (2, 0)"
    by (simp_all add: plain_engine_def)
  show ?thesis
    using content_effect_selection [OF 1 2 3 4 5]
    by (simp add: engine_eval codec_eval)
qed

section \<open>Propagation waits for the pointer\<close>

lemma content_effect_frame:
  "changes (content_effect E s) = changes s"
  "capture (content_effect E s) = capture s"
  "mouseDown (content_effect E s) = mouseDown s"
  "val (content_effect E s) = val s"
  "(editorRef (content_effect E s) = None) = (editorRef s = None)"
  unfolding content_effect_def
  by (simp_all add: Let_def split: option.splits prod.splits)

lemma content_effect_mouseDown: "mouseDown s \<Longrightarrow> content_effect E s = s"
  unfolding content_effect_def by (simp split: option.splits)

lemma capture_effect_mouseDown: "mouseDown s \<Longrightarrow> capture_effect s = s"
  unfolding capture_effect_def by (simp split: option.splits)

lemma replaceAssets_fields:
  "mouseDown (replaceAssets assets s) = mouseDown s"
  "editorRef (replaceAssets assets s) = editorRef s"
  "capture (replaceAssets assets s) = capture s"
  "val (replaceAssets assets s) = val s"
  unfolding replaceAssets_def
  by (simp_all add: Let_def split: option.splits)

lemma replaceAssets_changes:
  assumes "editorRef s \<noteq> None"
  shows "changes (replaceAssets assets s)
     = changes s @ changes (replaceAssets assets (mounted (val s)))"
  using assms unfolding replaceAssets_def content_def mounted_def
  by (auto simp: Let_def)

lemma step_during:
  assumes "mouseDown s" and "editorRef s \<noteq> None" and "ev \<noteq> MouseUp"
  shows "mouseDown (step E s ev) \<and> editorRef (step E s ev) \<noteq> None
     \<and> changes (step E s ev) = changes s @ asset_documents (val s) [ev]
     \<and> asset_documents (val s) (ev # evs)
         = asset_documents (val s) [ev] @ asset_documents (val (step E s ev)) evs
     \<and> capture (step E s ev) = captured (capture s) [ev]"
  using assms
  by (cases ev)
     (simp_all add: content_effect_mouseDown capture_effect_mouseDown
        replaceAssets_fields replaceAssets_changes)

lemma run_during:
  assumes "mouseDown s" and "editorRef s \<noteq> None" and "MouseUp \<notin> set evs"
  shows "mouseDown (run E s evs) \<and> editorRef (run E s evs) \<noteq> None
     \<and> changes (run E s evs) = changes s @ asset_documents (val s) evs
     \<and> capture (run E s evs) = captured (capture s) evs"
  using assms
proof (induction evs arbitrary: s)
  case Nil
  then show ?case by (simp add: run_def)
next
  case (Cons ev evs)
  have d: "ev \<noteq> MouseUp" and r: "MouseUp \<notin> set evs"
    using Cons.prems(3) by auto
  note st = step_during [OF Cons.prems(1,2) d, of E evs]
  have c: "captured (capture s) (ev # evs) = captured (captured (capture s) [ev]) evs"
    by (cases ev) simp_all
  have "run E s (ev # evs) = run E (step E s ev) evs"
    by (simp add: run_def)
  then show ?case
    using Cons.IH [of "step E s ev", OF _ _ r] st c by simp
qed

lemma step_MouseDown:
  "mouseDown (step E s MouseDown) \<and> changes (step E s MouseDown) = changes s
   \<and> editorRef (step E s MouseDown) = editorRef s
   \<and> capture (step E s MouseDown) = capture s
   \<and> val (step E s MouseDown) = val s"
  by (simp add: content_effect_mouseDown capture_effect_mouseDown)

lemma step_MouseUp:
  assumes "editorRef s \<noteq> None" and "mouseDown s"
  shows "changes (step E s MouseUp) =
      changes s @ (case capture s of None \<Rightarrow> []
                   | Some c \<Rightarrow> [removeEmptyLines (decodeContent (Some c))])
    \<and> capture (step E s MouseUp) = None \<and> \<not> mouseDown (step E s MouseUp)"
  using assms
  by (auto simp: content_effect_frame capture_effect_def split: option.splits)

text \<open>
  C6, amended. Let the editor exist, and let a mouse-down be followed by any events
  but a mouse-up: text changes, value changes, further mouse-downs and calls of
  \<open>replaceAssets\<close>. Then, up to the mouse-up, \<open>onChangeValue\<close> is called by the calls
  of \<open>replaceAssets\<close> only, with their documents: no text change is propagated. The
  mouse-up calls it once if a content is captured, with the last captured content
  decoded and without trailing empty lines, and not at all otherwise; the capture is
  cleared, so that nothing is propagated twice.
\<close>

theorem pointer_gated_propagation:
  assumes "editorRef s \<noteq> None" and "MouseUp \<notin> set evs"
  shows "changes (run E s (MouseDown # evs)) = changes s @ asset_documents (val s) evs
    \<and> mouseDown (run E s (MouseDown # evs))
    \<and> changes (run E s (MouseDown # evs @ [MouseUp])) =
        changes s @ asset_documents (val s) evs
        @ (case captured (capture s) evs of None \<Rightarrow> []
           | Some c \<Rightarrow> [removeEmptyLines (decodeContent (Some c))])
    \<and> capture (run E s (MouseDown # evs @ [MouseUp])) = None
    \<and> \<not> mouseDown (run E s (MouseDown # evs @ [MouseUp]))"
proof -
  let ?s1 = "step E s MouseDown"
  let ?s2 = "run E ?s1 evs"
  have 1: "mouseDown ?s1" "changes ?s1 = changes s" "editorRef ?s1 = editorRef s"
    "capture ?s1 = capture s" "val ?s1 = val s"
    using step_MouseDown [of E s] by simp_all
  have e1: "editorRef ?s1 \<noteq> None"
    using 1 assms(1) by simp
  have 2: "mouseDown ?s2" "editorRef ?s2 \<noteq> None"
    "changes ?s2 = changes s @ asset_documents (val s) evs"
    "capture ?s2 = captured (capture s) evs"
    using run_during [OF 1(1) e1 assms(2), of E] 1 by simp_all
  have r1: "run E s (MouseDown # evs) = ?s2"
    by (simp add: run_def)
  have r2: "run E s (MouseDown # evs @ [MouseUp]) = step E ?s2 MouseUp"
    by (simp add: run_def)
  show ?thesis
    unfolding r1 r2 using step_MouseUp [OF 2(2) 2(1), of E] 2 by simp
qed

theorem pointer_gated_propagation_witness:
  "editorRef (editing [image_op ''a''] None [mk_line [image_seg ''a''] Map.empty]) \<noteq> None
   \<and> MouseUp \<notin> set [user_edit ''x'', ReplaceAssets [''a'' \<mapsto> ''b''], user_edit ''xy'']
   \<and> changes (run plain_engine
        (editing [image_op ''a''] None [mk_line [image_seg ''a''] Map.empty])
        (MouseDown # [user_edit ''x'', ReplaceAssets [''a'' \<mapsto> ''b''], user_edit ''xy'']))
       = [[mk_line [image_seg ''b''] Map.empty]]
   \<and> changes (run plain_engine
        (editing [image_op ''a''] None [mk_line [image_seg ''a''] Map.empty])
        (MouseDown # [user_edit ''x'', ReplaceAssets [''a'' \<mapsto> ''b''], user_edit ''xy'']
           @ [MouseUp]))
       = [[mk_line [image_seg ''b''] Map.empty], [mk_line [text_seg ''xy'' Map.empty] Map.empty]]"
proof -
  let ?s = "editing [image_op ''a''] None [mk_line [image_seg ''a''] Map.empty]"
  let ?evs = "[user_edit ''x'', ReplaceAssets [''a'' \<mapsto> ''b''], user_edit ''xy'']"
  have 1: "editorRef ?s \<noteq> None"
    by (simp add: editing_def)
  have 2: "MouseUp \<notin> set ?evs"
    by (simp add: user_edit_def)
  have 3: "changes ?s = []" "capture ?s = None"
    "val ?s = [mk_line [image_seg ''a''] Map.empty]"
    by (simp_all add: editing_def)
  have 4: "asset_documents [mk_line [image_seg ''a''] Map.empty] ?evs
      = [[mk_line [image_seg ''b''] Map.empty]]"
    by (simp add: user_edit_def component_eval codec_eval)
  have 5: "captured None ?evs = Some [text_op (''xy'' @ [nl]) None]"
    by (simp add: user_edit_def)
  have 6: "removeEmptyLines (decodeContent (Some [text_op (''xy'' @ [nl]) None]))
      = [mk_line [text_seg ''xy'' Map.empty] Map.empty]"
    by (simp add: codec_eval)
  note t = pointer_gated_propagation [OF 1 2, of plain_engine, unfolded 3 4 5 6]
  show ?thesis
    using t 1 2 6 by simp
qed

text \<open>
  C6, as stated, fails: \<open>replaceAssets\<close> does not look at the mouse-down flag, and
  calls \<open>onChangeValue\<close> between a mouse-down and its mouse-up.
\<close>

theorem pointer_gated_counterexample:
  "mouseDown (run plain_engine
      (editing [image_op ''a''] None [mk_line [image_seg ''a''] Map.empty]) [MouseDown])
   \<and> changes (run plain_engine
      (editing [image_op ''a''] None [mk_line [image_seg ''a''] Map.empty]) [MouseDown]) = []
   \<and> changes (run plain_engine
      (editing [image_op ''a''] None [mk_line [image_seg ''a''] Map.empty])
      [MouseDown, ReplaceAssets [''a'' \<mapsto> ''b'']])
     = [[mk_line [image_seg ''b''] Map.empty]]"
  by (simp add: run_def engine_eval component_eval codec_eval)

section \<open>The round trip of the codec\<close>

lemma or_empty_of_stored [simp]: "or_empty (stored a) = a"
  by (simp add: or_empty_def stored_def)

lemma stored_inject [simp]: "(stored a = stored b) = (a = b)"
  by (auto simp: stored_def split: if_splits)

lemma delta_insert_append:
  assumes "is_document d" and "i \<noteq> Text []" and "\<not> merges d i a"
  shows "delta_insert d i a = d @ [ins_op i a]"
proof (cases "d = []")
  case True
  then show ?thesis
    using assms(2) by (simp add: delta_insert_def push_def ins_op_def stored_def)
next
  case False
  then obtain d' y where d: "d = d' @ [y]"
    by (metis rev_exhaust)
  have y: "op_insert y \<noteq> None" "op_delete y = None" "op_retain y = None"
    using assms(1) unfolding d is_document_def by simp_all
  have n: "op_attributes y \<noteq> stored a \<or> (\<forall>u. op_insert y \<noteq> Some (Text u)) \<or> (\<forall>t. i \<noteq> Text t)"
    using assms(3) unfolding merges_def d by auto
  have p: "push d (ins_op i a) = push_at d [] (ins_op i a)"
    using y unfolding d push_def ins_op_def by (simp split: option.splits)
  have "push_at d [] (ins_op i a) = d @ [ins_op i a]"
    using n y unfolding d push_at_def ins_op_def
    by (auto simp: Let_def split: option.splits ins.splits)
  then show ?thesis
    using assms(2) p by (simp add: delta_insert_def ins_op_def stored_def)
qed

lemma delta_insert_merge:
  assumes "is_document (d @ [x])" and "op_insert x = Some (Text u)"
    and "op_attributes x = stored a" and "t \<noteq> []"
  shows "delta_insert (d @ [x]) (Text t) a = d @ [text_op (u @ t) (stored a)]"
proof -
  have y: "op_delete x = None" "op_retain x = None"
    using assms(1) unfolding is_document_def by simp_all
  show ?thesis
    using assms(2-4) y unfolding delta_insert_def push_def push_at_def text_op_def
    by (auto simp: Let_def stored_def split: option.splits ins.splits)
qed

lemma split_nl_not_Nil [simp]: "split_nl s \<noteq> []"
  by (induction s) (auto split: list.splits)

lemma split_nl_plain: "nl \<notin> set t \<Longrightarrow> split_nl t = [t]"
  by (induction t) auto

lemma split_nl_append: "split_nl (u @ nl # t) = split_nl u @ split_nl t"
proof (induction u)
  case Nil
  show ?case by simp
next
  case (Cons c u)
  obtain p ps where p: "split_nl u = p # ps"
    by (cases "split_nl u") simp_all
  show ?case
    using Cons p by simp
qed

lemma split_loop_snoc:
  "split_loop i (ps @ [q]) a st =
     push_segment (Text q) a
       (if i \<noteq> 0 \<or> ps \<noteq> [] then close_line Map.empty (split_loop i ps a st)
        else split_loop i ps a st)"
proof (induction ps arbitrary: i st)
  case Nil
  show ?case by simp
next
  case (Cons p ps)
  show ?case
    by (simp add: Cons [of "Suc i"])
qed

lemma all_nl_plain: "t \<noteq> [] \<Longrightarrow> nl \<notin> set t \<Longrightarrow> \<not> all_nl t"
  by (cases t) (auto simp: all_nl_def)

lemma decode_op_plain_text:
  assumes "t \<noteq> []" and "nl \<notin> set t"
  shows "decode_op st (ins_op (Text t) a) = push_segment (Text t) a st"
  using all_nl_plain [OF assms] assms
  by (simp add: decode_op_def ins_op_def all_nl_def split_nl_plain)

lemma decode_op_embed:
  "decode_op st (ins_op (Embed e) a) = push_segment (Embed e) a st"
  by (simp add: decode_op_def ins_op_def)

lemma decode_op_nl_run:
  assumes "all_nl u"
  shows "decode_op st (text_op (u @ [nl]) b) = close_line (or_empty b) (decode_op st (text_op u b))"
  using assms by (simp add: decode_op_def text_op_def all_nl_def)

lemma decode_op_nl: "decode_op st (ins_op (Text [nl]) a) = close_line a st"
  by (simp add: decode_op_def ins_op_def)

lemma decode_op_join:
  assumes "\<not> all_nl u" and "nl \<notin> set t"
  shows "decode_op st (text_op (u @ nl # t) b) =
     push_segment (Text t) (or_empty b) (close_line Map.empty (decode_op st (text_op u b)))"
proof -
  have "\<not> all_nl (u @ nl # t)"
    using assms(1) by (simp add: all_nl_def)
  then show ?thesis
    using assms
    by (simp add: decode_op_def text_op_def all_nl_def split_nl_append split_nl_plain
        split_loop_snoc)
qed

lemma ds_snoc: "ds (d @ [x]) = decode_op (ds d) x"
  by (simp add: ds_def)

lemma is_document_snoc:
  "is_document (d @ [x]) =
     (is_document d \<and> op_insert x \<noteq> None \<and> op_delete x = None \<and> op_retain x = None)"
  by (simp add: is_document_def)

lemma is_document_ins_op: "is_document d \<Longrightarrow> is_document (d @ [ins_op i a])"
  by (simp add: is_document_def ins_op_def)

lemma is_document_text_op: "is_document d \<Longrightarrow> is_document (d @ [text_op t a])"
  by (simp add: is_document_def text_op_def)

lemma text_op_eq:
  assumes "op_insert x = Some (Text u)" and "op_attributes x = b"
    and "op_delete x = None" and "op_retain x = None"
  shows "x = text_op u b"
  using assms by (simp add: text_op_def)

lemma clean_not_empty: "clean_segment s \<Longrightarrow> seg_insert s \<noteq> Text []"
  by (auto simp: clean_segment_def split: ins.splits)

lemma decode_op_seg_op:
  "clean_segment s \<Longrightarrow> decode_op st (seg_op s) = (fst st, snd st @ [s])"
  unfolding seg_op_def clean_segment_def
  by (cases "seg_insert s")
     (simp_all add: decode_op_plain_text decode_op_embed push_segment_def)

lemma decode_seg_ops:
  "list_all clean_segment ss \<Longrightarrow> foldl decode_op st (map seg_op ss) = (fst st, snd st @ ss)"
  by (induction ss arbitrary: st) (simp_all add: decode_op_seg_op)

lemma merges_after_seg_op:
  "merges (d @ [seg_op s]) (seg_insert s') (seg_attributes s') =
     (is_text_with (seg_attributes s) s \<and> is_text_with (seg_attributes s) s')"
  unfolding merges_def seg_op_def ins_op_def is_text_with_def
  by (auto split: ins.splits)

lemma insert_segments_append:
  assumes "is_document d" and "list_all clean_segment ss" and "distinct_runs ss"
    and "ss \<noteq> [] \<Longrightarrow> \<not> merges d (seg_insert (hd ss)) (seg_attributes (hd ss))"
  shows "insert_segments d ss = d @ map seg_op ss"
  using assms
proof (induction ss arbitrary: d)
  case Nil
  show ?case by (simp add: insert_segments_def)
next
  case (Cons s ss)
  have 1: "delta_insert d (seg_insert s) (seg_attributes s) = d @ [seg_op s]"
    unfolding seg_op_def
    using Cons.prems by (intro delta_insert_append) (simp_all add: clean_not_empty)
  have 2: "is_document (d @ [seg_op s])"
    unfolding seg_op_def using Cons.prems(1) by (rule is_document_ins_op)
  have 3: "ss \<noteq> [] \<Longrightarrow>
      \<not> merges (d @ [seg_op s]) (seg_insert (hd ss)) (seg_attributes (hd ss))"
    using Cons.prems(3) by (cases ss) (simp_all add: merges_after_seg_op)
  have 4: "distinct_runs ss"
    using Cons.prems(3) by (cases ss) simp_all
  have "insert_segments d (s # ss) = insert_segments (d @ [seg_op s]) ss"
    using 1 by (simp add: insert_segments_def)
  also have "\<dots> = (d @ [seg_op s]) @ map seg_op ss"
    using Cons.prems(2) 2 3 4 by (intro Cons.IH) simp_all
  finally show ?case by simp
qed

lemma is_document_seg_ops: "is_document d \<Longrightarrow> is_document (d @ map seg_op ss)"
  by (auto simp: is_document_def seg_op_def ins_op_def list_all_iff)

lemma shape_seg_ops:
  assumes "is_document d" and "list_all clean_segment ss" and "ss \<noteq> []"
  shows "shape (d @ map seg_op ss) (segs @ ss)"
proof -
  obtain ss' s where ss: "ss = ss' @ [s]"
    using assms(3) by (metis rev_exhaust)
  have c: "clean_segment s"
    using assms(2) unfolding ss by simp
  have e: "d @ map seg_op ss = (d @ map seg_op ss') @ [seg_op s]"
    unfolding ss by simp
  have "op_attributes (seg_op s) = stored (seg_attributes s)"
    by (simp add: seg_op_def ins_op_def)
  moreover have "case seg_insert s of
      Embed e \<Rightarrow> op_insert (seg_op s) = Some (Embed e)
    | Text t \<Rightarrow> (\<exists>u. op_insert (seg_op s) = Some (Text u) \<and> \<not> all_nl u)"
    using c by (auto simp: seg_op_def ins_op_def clean_segment_def all_nl_plain split: ins.splits)
  ultimately show ?thesis
    unfolding shape_def using is_document_seg_ops [OF assms(1), of ss] e
    by (auto simp: ss)
qed

lemma line_eq: "\<lparr>segments = segments l, line_attributes = line_attributes l\<rparr> = (l :: line)"
  by simp

lemma close_line_ds:
  assumes "st = (r, segments l)"
  shows "close_line (line_attributes l) st = (r @ [l], [])"
  using assms by (simp add: close_line_def)

lemma newline_closes:
  assumes sh: "shape d (segments l)" and st: "ds d = (r, segments l)"
    and ne: "\<not> ends_with (line_attributes l) l"
  shows "\<exists>d' v. delta_insert d (Text [nl]) (line_attributes l)
            = d' @ [text_op v (stored (line_attributes l))]
          \<and> all_nl v \<and> is_document d'
          \<and> ds (delta_insert d (Text [nl]) (line_attributes l)) = (r @ [l], [])"
proof (cases "merges d (Text [nl]) (line_attributes l)")
  case False
  have doc: "is_document d"
    using sh by (simp add: shape_def)
  have a: "delta_insert d (Text [nl]) (line_attributes l) = d @ [ins_op (Text [nl]) (line_attributes l)]"
    using doc False by (intro delta_insert_append) simp_all
  have "ins_op (Text [nl]) (line_attributes l) = text_op [nl] (stored (line_attributes l))"
    by (simp add: ins_op_def text_op_def)
  moreover have "all_nl [nl]"
    by (simp add: all_nl_def)
  moreover have "ds (d @ [ins_op (Text [nl]) (line_attributes l)]) = (r @ [l], [])"
    by (simp add: ds_snoc decode_op_nl close_line_ds [OF st])
  ultimately show ?thesis
    using a doc by auto
next
  case True
  then obtain d' x u where d: "d = d' @ [x]" and x: "op_insert x = Some (Text u)"
      "op_attributes x = stored (line_attributes l)"
    unfolding merges_def by (metis append_butlast_last_id)
  have doc: "is_document (d' @ [x])"
    using sh by (simp add: shape_def d)
  then have doc': "is_document d'" and xd: "op_delete x = None" "op_retain x = None"
    by (simp_all add: is_document_snoc)
  have xe: "x = text_op u (stored (line_attributes l))"
    using x xd by (intro text_op_eq)
  have empty: "segments l = []"
  proof (rule ccontr)
    assume n: "segments l \<noteq> []"
    then obtain d'' y where y: "d = d'' @ [y]"
        "op_attributes y = stored (seg_attributes (last (segments l)))"
        "case seg_insert (last (segments l)) of
           Embed e \<Rightarrow> op_insert y = Some (Embed e)
         | Text t \<Rightarrow> (\<exists>u. op_insert y = Some (Text u) \<and> \<not> all_nl u)"
      using sh unfolding shape_def by auto
    have "y = x"
      using y(1) d by simp
    then have "is_text_with (line_attributes l) (last (segments l))"
      using y(2,3) x unfolding is_text_with_def by (auto split: ins.splits)
    then show False
      using ne n by (simp add: ends_with_def)
  qed
  have u: "all_nl u"
    using sh empty x(1) unfolding shape_def d by auto
  have a: "delta_insert d (Text [nl]) (line_attributes l)
      = d' @ [text_op (u @ [nl]) (stored (line_attributes l))]"
    unfolding d using doc x by (intro delta_insert_merge) simp_all
  have "ds (d' @ [text_op (u @ [nl]) (stored (line_attributes l))])
      = close_line (line_attributes l) (ds d)"
    unfolding d by (simp add: ds_snoc decode_op_nl_run [OF u] xe [symmetric])
  then have "ds (d' @ [text_op (u @ [nl]) (stored (line_attributes l))]) = (r @ [l], [])"
    by (simp add: close_line_ds [OF st])
  moreover have "all_nl (u @ [nl])"
    using u by (simp add: all_nl_def)
  ultimately show ?thesis
    using a doc' by auto
qed

lemma transition_closed:
  assumes sh: "shape d (segments l)" and st: "ds d = (r, segments l)"
    and ne: "\<not> ends_with (line_attributes l) l"
    and ns: "\<not> starts_with (line_attributes l) l'"
    and ok: "line_ok l'"
  shows "shape (insert_segments (delta_insert d (Text [nl]) (line_attributes l)) (segments l'))
           (segments l')
       \<and> ds (insert_segments (delta_insert d (Text [nl]) (line_attributes l)) (segments l'))
           = (r @ [l], segments l')"
proof -
  let ?d1 = "delta_insert d (Text [nl]) (line_attributes l)"
  obtain d' v where d1: "?d1 = d' @ [text_op v (stored (line_attributes l))]"
    and v: "all_nl v" and doc': "is_document d'" and st1: "ds ?d1 = (r @ [l], [])"
    using newline_closes [OF sh st ne] by blast
  have doc1: "is_document ?d1"
    unfolding d1 using doc' by (rule is_document_text_op)
  have clean: "list_all clean_segment (segments l')" and runs: "distinct_runs (segments l')"
    using ok by (simp_all add: line_ok_def)
  have nm: "segments l' \<noteq> [] \<Longrightarrow>
      \<not> merges ?d1 (seg_insert (hd (segments l'))) (seg_attributes (hd (segments l')))"
    using ns unfolding d1 merges_def starts_with_def is_text_with_def text_op_def
    by (auto split: ins.splits)
  have app: "insert_segments ?d1 (segments l') = ?d1 @ map seg_op (segments l')"
    using doc1 clean runs nm by (rule insert_segments_append)
  have 1: "ds (?d1 @ map seg_op (segments l')) = (r @ [l], segments l')"
    using decode_seg_ops [OF clean, of "ds ?d1"] st1 by (simp add: ds_def)
  have 2: "shape (?d1 @ map seg_op (segments l')) (segments l')"
  proof (cases "segments l' = []")
    case True
    then show ?thesis
      using doc1 v unfolding shape_def d1 by (auto simp: text_op_def)
  next
    case False
    then show ?thesis
      using shape_seg_ops [OF doc1 clean False, of "[]"] by simp
  qed
  show ?thesis
    unfolding app using 1 2 by simp
qed

lemma transition_joined:
  assumes sh: "shape d (segments l)" and st: "ds d = (r, segments l)"
    and e: "ends_with (line_attributes l) l"
    and s: "starts_with (line_attributes l) l'"
    and a: "line_attributes l = Map.empty"
    and ok: "line_ok l'"
  shows "shape (insert_segments (delta_insert d (Text [nl]) (line_attributes l)) (segments l'))
           (segments l')
       \<and> ds (insert_segments (delta_insert d (Text [nl]) (line_attributes l)) (segments l'))
           = (r @ [l], segments l')"
proof -
  let ?A = "line_attributes l"
  let ?d1 = "delta_insert d (Text [nl]) ?A"
  have clean: "list_all clean_segment (segments l')" and runs: "distinct_runs (segments l')"
    using ok by (simp_all add: line_ok_def)
  obtain s' ss where l': "segments l' = s' # ss"
    using s unfolding starts_with_def by (cases "segments l'") simp_all
  obtain t' where s': "seg_insert s' = Text t'" "seg_attributes s' = ?A"
    using s unfolding starts_with_def l' is_text_with_def by (auto split: ins.splits)
  have t': "t' \<noteq> []" "nl \<notin> set t'"
    using clean s' unfolding l' clean_segment_def by simp_all
  have s'e: "s' = \<lparr>seg_insert = Text t', seg_attributes = ?A\<rparr>"
    using s' by simp
  have n: "segments l \<noteq> []" and lt: "is_text_with ?A (last (segments l))"
    using e by (simp_all add: ends_with_def)
  obtain d' x where d: "d = d' @ [x]"
    and xa: "op_attributes x = stored (seg_attributes (last (segments l)))"
    and xi: "case seg_insert (last (segments l)) of
           Embed e \<Rightarrow> op_insert x = Some (Embed e)
         | Text t \<Rightarrow> (\<exists>u. op_insert x = Some (Text u) \<and> \<not> all_nl u)"
    using sh n unfolding shape_def by auto
  obtain u where u: "op_insert x = Some (Text u)" "\<not> all_nl u" and xa': "op_attributes x = stored ?A"
    using lt xa xi unfolding is_text_with_def by (auto split: ins.splits)
  have doc: "is_document (d' @ [x])"
    using sh by (simp add: shape_def d)
  then have doc': "is_document d'" and xd: "op_delete x = None" "op_retain x = None"
    by (simp_all add: is_document_snoc)
  have xe: "x = text_op u (stored ?A)"
    using u(1) xa' xd by (intro text_op_eq)
  have d1: "?d1 = d' @ [text_op (u @ [nl]) (stored ?A)]"
    unfolding d using doc u(1) xa' by (intro delta_insert_merge) simp_all
  let ?d2 = "d' @ [text_op (u @ nl # t') (stored ?A)]"
  have d2: "delta_insert ?d1 (Text t') ?A = ?d2"
    unfolding d1
    using delta_insert_merge [of d' "text_op (u @ [nl]) (stored ?A)" "u @ [nl]" ?A t']
      is_document_text_op [OF doc'] t'(1)
    by (simp add: text_op_def)
  have doc2: "is_document ?d2"
    using doc' by (rule is_document_text_op)
  have nm: "\<not> merges ?d2 (seg_insert (hd ss)) (seg_attributes (hd ss))" if ne: "ss \<noteq> []"
  proof
    assume m: "merges ?d2 (seg_insert (hd ss)) (seg_attributes (hd ss))"
    obtain s'' ss' where ss: "ss = s'' # ss'"
      using ne by (cases ss) simp_all
    have "is_text_with ?A s''"
      using m unfolding ss merges_def is_text_with_def text_op_def
      by (auto split: ins.splits)
    moreover have "is_text_with ?A s'"
      using s' by (simp add: is_text_with_def)
    ultimately show False
      using runs s'(2) unfolding l' ss by simp
  qed
  have runs': "distinct_runs ss"
    using runs unfolding l' by (cases ss) simp_all
  have clean': "list_all clean_segment ss"
    using clean unfolding l' by simp
  have app: "insert_segments ?d1 (s' # ss) = ?d2 @ map seg_op ss"
    using insert_segments_append [OF doc2 clean' runs' nm] d2 s'
    by (simp add: insert_segments_def)
  have "ds ?d2 = push_segment (Text t') ?A (close_line Map.empty (ds d))"
    unfolding d by (simp add: ds_snoc decode_op_join [OF u(2) t'(2)] xe [symmetric])
  also have "\<dots> = (r @ [l], [s'])"
    using close_line_ds [OF st] a s'e by (simp add: push_segment_def)
  finally have st2: "ds ?d2 = (r @ [l], [s'])" .
  have 1: "ds (?d2 @ map seg_op ss) = (r @ [l], s' # ss)"
    using decode_seg_ops [OF clean', of "ds ?d2"] st2 by (simp add: ds_def)
  have 2: "shape (?d2 @ map seg_op ss) (s' # ss)"
  proof (cases "ss = []")
    case True
    have "\<not> all_nl (u @ nl # t')"
      using u(2) by (simp add: all_nl_def)
    then show ?thesis
      using doc2 s' True unfolding shape_def by (auto simp: text_op_def)
  next
    case False
    then show ?thesis
      using shape_seg_ops [OF doc2 clean' False, of "[s']"] by simp
  qed
  show ?thesis
    unfolding l' app using 1 2 by simp
qed

lemma transition:
  assumes "shape d (segments l)" and "ds d = (r, segments l)" and "link l l'" and "line_ok l'"
  shows "shape (insert_segments (delta_insert d (Text [nl]) (line_attributes l)) (segments l'))
           (segments l')
       \<and> ds (insert_segments (delta_insert d (Text [nl]) (line_attributes l)) (segments l'))
           = (r @ [l], segments l')"
proof (cases "ends_with (line_attributes l) l")
  case True
  have "starts_with (line_attributes l) l'" and "line_attributes l = Map.empty"
    using assms(3) True unfolding link_def by blast+
  then show ?thesis
    by (intro transition_joined assms True)
next
  case False
  have "\<not> starts_with (line_attributes l) l'"
    using assms(3) False unfolding link_def by blast
  then show ?thesis
    by (intro transition_closed assms False)
qed

lemma shape_first_line:
  assumes "line_ok l"
  shows "shape (insert_segments [] (segments l)) (segments l)
       \<and> ds (insert_segments [] (segments l)) = ([], segments l)"
proof -
  have doc: "is_document []"
    by (simp add: is_document_def)
  have clean: "list_all clean_segment (segments l)" and runs: "distinct_runs (segments l)"
    using assms by (simp_all add: line_ok_def)
  have app: "insert_segments [] (segments l) = [] @ map seg_op (segments l)"
    using doc clean runs by (rule insert_segments_append) (simp add: merges_def)
  have 1: "ds ([] @ map seg_op (segments l)) = ([], segments l)"
    using decode_seg_ops [OF clean, of "([], [])"] by (simp add: ds_def)
  have 2: "shape ([] @ map seg_op (segments l)) (segments l)"
  proof (cases "segments l = []")
    case True
    then show ?thesis by (simp add: shape_def is_document_def)
  next
    case False
    then show ?thesis
      using shape_seg_ops [OF doc clean False, of "[]"] by simp
  qed
  show ?thesis
    unfolding app using 1 2 by simp
qed

lemma encode_lines_decode:
  assumes "shape d (segments l)" and "ds d = (r, segments l)"
    and "list_all line_ok ls" and "joined (l # ls)" and "\<not> empty_line (last (l # ls))"
  shows "decode_finish
           (ds (case encode_lines (Suc i) ls (d, line_attributes l) of
                  (c, a) \<Rightarrow> if a \<noteq> Map.empty then delta_insert c (Text [nl]) a else c))
         = r @ l # ls"
  using assms
proof (induction ls arbitrary: i d r l)
  case Nil
  show ?case
  proof (cases "line_attributes l = Map.empty")
    case True
    have "segments l \<noteq> []"
      using Nil.prems(5) True by (auto simp: empty_line_def)
    moreover have "\<lparr>segments = segments l, line_attributes = Map.empty\<rparr> = l"
      using True by simp
    ultimately show ?thesis
      using True Nil.prems(2) by (simp add: decode_finish_def close_line_def)
  next
    case False
    have "\<not> ends_with (line_attributes l) l"
      using Nil.prems(4) False by simp
    from newline_closes [OF Nil.prems(1,2) this]
    have "ds (delta_insert d (Text [nl]) (line_attributes l)) = (r @ [l], [])"
      by blast
    then show ?thesis
      using False by (simp add: decode_finish_def)
  qed
next
  case (Cons l' ls)
  let ?d2 = "insert_segments (delta_insert d (Text [nl]) (line_attributes l)) (segments l')"
  have lk: "link l l'" and j: "joined (l' # ls)"
    using Cons.prems(4) by simp_all
  have ok: "line_ok l'" and oks: "list_all line_ok ls"
    using Cons.prems(3) by simp_all
  have t: "shape ?d2 (segments l')" "ds ?d2 = (r @ [l], segments l')"
    using transition [OF Cons.prems(1,2) lk ok] by simp_all
  have e: "\<not> empty_line (last (l' # ls))"
    using Cons.prems(5) by simp
  have "encode_lines (Suc i) (l' # ls) (d, line_attributes l)
      = encode_lines (Suc (Suc i)) ls (?d2, line_attributes l')"
    by simp
  then show ?case
    using Cons.IH [OF t oks j e, of "Suc i"] by simp
qed

lemma removeEmptyLines_fixed:
  assumes "removeEmptyLines x = x" and "x \<noteq> []"
  shows "\<not> empty_line (last x)"
proof
  assume e: "empty_line (last x)"
  obtain y ys where r: "rev x = y # ys"
    using assms(2) by (cases "rev x") simp_all
  have "y = last x"
    using r by (metis last_rev list.sel(1) rev_rev_ident)
  then have "dropWhile empty_line (y # ys) = dropWhile empty_line ys"
    using e by simp
  then have "dropWhile empty_line (rev x) = dropWhile empty_line ys"
    unfolding r .
  then have "length (removeEmptyLines x) \<le> length ys"
    by (simp add: removeEmptyLines_def length_dropWhile_le)
  moreover have "length x = Suc (length ys)"
    using r by (metis length_Cons length_rev)
  ultimately show False
    using assms(1) by simp
qed

text \<open>
  A condition on the lines themselves. For every list of lines without trailing
  empty lines that is \<open>canonical\<close> (clean segments, no neighbouring text segments
  of equal attributes in a line, and every two consecutive lines linked), decoding
  the encoding gives the list again.
\<close>

lemma decode_encode_canonical:
  assumes "removeEmptyLines x = x" and "canonical x"
  shows "decodeContent (Some (encodeContent x)) = x"
proof (cases x)
  case Nil
  then show ?thesis
    by (simp add: encodeContent_def decodeContent_def decode_finish_def)
next
  case (Cons l ls)
  have ok: "line_ok l" and oks: "list_all line_ok ls" and j: "joined (l # ls)"
    using assms(2) unfolding Cons canonical_def by simp_all
  have e: "\<not> empty_line (last (l # ls))"
    using removeEmptyLines_fixed [OF assms(1)] Cons by simp
  note f = shape_first_line [OF ok]
  have "encode_lines 0 (l # ls) ([], Map.empty)
      = encode_lines (Suc 0) ls (insert_segments [] (segments l), line_attributes l)"
    by simp
  then show ?thesis
    using encode_lines_decode [OF f [THEN conjunct1] f [THEN conjunct2] oks j e, of 0]
    unfolding Cons encodeContent_def decodeContent_def ds_def
    by simp
qed

lemma empty_neq_upd: "Map.empty \<noteq> m(k \<mapsto> v)"
  by (metis map_upd_nonempty)

lemmas canonical_eval = empty_neq_upd
  canonical_def line_ok_def clean_segment_def link_def ends_with_def starts_with_def
  is_text_with_def

lemma decode_encode_canonical_example:
  "removeEmptyLines
     [mk_line [text_seg ''T'' Map.empty] [''header'' \<mapsto> JNumber 1],
      mk_line [] Map.empty,
      mk_line [text_seg ''a'' [''bold'' \<mapsto> JBoolean True], text_seg ''b'' Map.empty] Map.empty,
      mk_line [text_seg ''c'' Map.empty, image_seg ''u''] Map.empty,
      mk_line [image_seg ''v''] Map.empty]
   = [mk_line [text_seg ''T'' Map.empty] [''header'' \<mapsto> JNumber 1],
      mk_line [] Map.empty,
      mk_line [text_seg ''a'' [''bold'' \<mapsto> JBoolean True], text_seg ''b'' Map.empty] Map.empty,
      mk_line [text_seg ''c'' Map.empty, image_seg ''u''] Map.empty,
      mk_line [image_seg ''v''] Map.empty]
   \<and> canonical
     [mk_line [text_seg ''T'' Map.empty] [''header'' \<mapsto> JNumber 1],
      mk_line [] Map.empty,
      mk_line [text_seg ''a'' [''bold'' \<mapsto> JBoolean True], text_seg ''b'' Map.empty] Map.empty,
      mk_line [text_seg ''c'' Map.empty, image_seg ''u''] Map.empty,
      mk_line [image_seg ''v''] Map.empty]
   \<and> decodeContent (Some (encodeContent
     [mk_line [text_seg ''T'' Map.empty] [''header'' \<mapsto> JNumber 1],
      mk_line [] Map.empty,
      mk_line [text_seg ''a'' [''bold'' \<mapsto> JBoolean True], text_seg ''b'' Map.empty] Map.empty,
      mk_line [text_seg ''c'' Map.empty, image_seg ''u''] Map.empty,
      mk_line [image_seg ''v''] Map.empty]))
   = [mk_line [text_seg ''T'' Map.empty] [''header'' \<mapsto> JNumber 1],
      mk_line [] Map.empty,
      mk_line [text_seg ''a'' [''bold'' \<mapsto> JBoolean True], text_seg ''b'' Map.empty] Map.empty,
      mk_line [text_seg ''c'' Map.empty, image_seg ''u''] Map.empty,
      mk_line [image_seg ''v''] Map.empty]"
proof -
  let ?x = "[mk_line [text_seg ''T'' Map.empty] [''header'' \<mapsto> JNumber 1],
      mk_line [] Map.empty,
      mk_line [text_seg ''a'' [''bold'' \<mapsto> JBoolean True], text_seg ''b'' Map.empty] Map.empty,
      mk_line [text_seg ''c'' Map.empty, image_seg ''u''] Map.empty,
      mk_line [image_seg ''v''] Map.empty]"
  have 1: "removeEmptyLines ?x = ?x"
    by (simp add: removeEmptyLines_def empty_line_def mk_line_def image_seg_def text_seg_def)
  have 2: "canonical ?x"
    by (simp add: canonical_eval mk_line_def image_seg_def text_seg_def nl_def)
  show ?thesis
    using decode_encode_canonical [OF 1 2] 1 2 by simp
qed

text \<open>
  C1, as stated, fails. None of these lists has a trailing empty line, and none is
  what decoding its encoding gives: a text with a line feed inside comes back as
  two lines; two neighbouring text segments of equal attributes come back as one;
  an empty text segment is lost; an image line followed by a plain text line
  comes back with an empty text segment after the image, and a plain text line
  followed by an image line with one before the image; a line whose last text has
  the block attributes of the line comes back without them, be it the last line
  or followed by a text of the same attributes.
\<close>

theorem decode_encode_counterexample:
  "removeEmptyLines [mk_line [text_seg (''a'' @ [nl] @ ''b'') Map.empty] Map.empty]
     = [mk_line [text_seg (''a'' @ [nl] @ ''b'') Map.empty] Map.empty]
   \<and> decodeContent (Some (encodeContent
        [mk_line [text_seg (''a'' @ [nl] @ ''b'') Map.empty] Map.empty]))
     = [mk_line [text_seg ''a'' Map.empty] Map.empty, mk_line [text_seg ''b'' Map.empty] Map.empty]
   \<and> decodeContent (Some (encodeContent
        [mk_line [text_seg (''a'' @ [nl] @ ''b'') Map.empty] Map.empty]))
     \<noteq> [mk_line [text_seg (''a'' @ [nl] @ ''b'') Map.empty] Map.empty]
   \<and> removeEmptyLines [mk_line [text_seg ''a'' Map.empty, text_seg ''b'' Map.empty] Map.empty]
     = [mk_line [text_seg ''a'' Map.empty, text_seg ''b'' Map.empty] Map.empty]
   \<and> decodeContent (Some (encodeContent
        [mk_line [text_seg ''a'' Map.empty, text_seg ''b'' Map.empty] Map.empty]))
     = [mk_line [text_seg ''ab'' Map.empty] Map.empty]
   \<and> removeEmptyLines [mk_line [text_seg '''' Map.empty, text_seg ''a'' Map.empty] Map.empty]
     = [mk_line [text_seg '''' Map.empty, text_seg ''a'' Map.empty] Map.empty]
   \<and> decodeContent (Some (encodeContent
        [mk_line [text_seg '''' Map.empty, text_seg ''a'' Map.empty] Map.empty]))
     = [mk_line [text_seg ''a'' Map.empty] Map.empty]
   \<and> removeEmptyLines
        [mk_line [image_seg ''u''] Map.empty, mk_line [text_seg ''b'' Map.empty] Map.empty]
     = [mk_line [image_seg ''u''] Map.empty, mk_line [text_seg ''b'' Map.empty] Map.empty]
   \<and> decodeContent (Some (encodeContent
        [mk_line [image_seg ''u''] Map.empty, mk_line [text_seg ''b'' Map.empty] Map.empty]))
     = [mk_line [image_seg ''u'', text_seg '''' Map.empty] Map.empty,
        mk_line [text_seg ''b'' Map.empty] Map.empty]
   \<and> removeEmptyLines
        [mk_line [text_seg ''a'' Map.empty] Map.empty, mk_line [image_seg ''u''] Map.empty]
     = [mk_line [text_seg ''a'' Map.empty] Map.empty, mk_line [image_seg ''u''] Map.empty]
   \<and> decodeContent (Some (encodeContent
        [mk_line [text_seg ''a'' Map.empty] Map.empty, mk_line [image_seg ''u''] Map.empty]))
     = [mk_line [text_seg ''a'' Map.empty] Map.empty,
        mk_line [text_seg '''' Map.empty, image_seg ''u''] Map.empty]
   \<and> removeEmptyLines
        [mk_line [text_seg ''a'' [''h'' \<mapsto> JNumber 1]] [''h'' \<mapsto> JNumber 1]]
     = [mk_line [text_seg ''a'' [''h'' \<mapsto> JNumber 1]] [''h'' \<mapsto> JNumber 1]]
   \<and> decodeContent (Some (encodeContent
        [mk_line [text_seg ''a'' [''h'' \<mapsto> JNumber 1]] [''h'' \<mapsto> JNumber 1]]))
     = [mk_line [text_seg ''a'' [''h'' \<mapsto> JNumber 1]] Map.empty,
        mk_line [text_seg '''' [''h'' \<mapsto> JNumber 1]] Map.empty]
   \<and> removeEmptyLines
        [mk_line [text_seg ''a'' [''h'' \<mapsto> JNumber 1]] [''h'' \<mapsto> JNumber 1],
         mk_line [text_seg ''b'' [''h'' \<mapsto> JNumber 1]] Map.empty]
     = [mk_line [text_seg ''a'' [''h'' \<mapsto> JNumber 1]] [''h'' \<mapsto> JNumber 1],
        mk_line [text_seg ''b'' [''h'' \<mapsto> JNumber 1]] Map.empty]
   \<and> decodeContent (Some (encodeContent
        [mk_line [text_seg ''a'' [''h'' \<mapsto> JNumber 1]] [''h'' \<mapsto> JNumber 1],
         mk_line [text_seg ''b'' [''h'' \<mapsto> JNumber 1]] Map.empty]))
     = [mk_line [text_seg ''a'' [''h'' \<mapsto> JNumber 1]] Map.empty,
        mk_line [text_seg ''b'' [''h'' \<mapsto> JNumber 1]] Map.empty]"
  by (simp add: codec_eval)

section \<open>The round trip on what the decoder returns\<close>

lemma normal_Cons: "normal (x # d) \<Longrightarrow> normal d"
  by (cases d) (simp_all add: normal_def is_document_def)

lemma normal_head:
  assumes "normal (x # d)"
  shows "op_insert x \<noteq> None" "op_delete x = None" "op_retain x = None" "op_ok x"
  using assms by (simp_all add: normal_def is_document_def)

lemma or_empty_inject:
  assumes "a \<noteq> Some Map.empty" and "b \<noteq> Some Map.empty" and "or_empty a = or_empty b"
  shows "a = b"
  using assms by (auto simp: or_empty_def split: option.splits)

lemma op_units_not_Nil:
  assumes "op_insert x \<noteq> None" and "op_ok x"
  shows "op_units x \<noteq> []"
  using assms unfolding op_units_def op_ok_def
  by (cases "the (op_insert x)") (auto split: option.splits)

lemma delta_units_Nil:
  assumes "normal d" and "delta_units d = []"
  shows "d = []"
proof (cases d)
  case Nil
  then show ?thesis .
next
  case (Cons x d')
  then show ?thesis
    using op_units_not_Nil [of x] normal_head [of x d'] assms
    by (simp add: delta_units_def)
qed

lemma hd_units_text:
  assumes "normal (y # d)" and "hd (delta_units (y # d)) = (AChar c, a)"
  shows "is_text_op y \<and> or_empty (op_attributes y) = a"
proof -
  have n: "op_units y \<noteq> []"
    using op_units_not_Nil normal_head [OF assms(1)] by simp
  then have "hd (op_units y) = (AChar c, a)"
    using assms(2) by (simp add: delta_units_def)
  then show ?thesis
    using n unfolding op_units_def is_text_op_def
    by (cases "op_insert y"; cases "the (op_insert y)") (auto simp: hd_map)
qed

lemma text_units_prefix:
  assumes "normal (x # d)" and "op_insert x = Some (Text u)"
    and "delta_units d = map (\<lambda>c. (AChar c, or_empty (op_attributes x))) w @ r" and "w \<noteq> []"
  shows False
proof -
  have d: "d \<noteq> []"
    using assms(3,4) by (auto simp: delta_units_def)
  then obtain y d' where yd: "d = y # d'"
    by (cases d) simp_all
  have ny: "normal (y # d')"
    using normal_Cons [OF assms(1)] yd by simp
  have "hd (delta_units (y # d')) = (AChar (hd w), or_empty (op_attributes x))"
    using assms(3,4) unfolding yd by (cases w) simp_all
  from hd_units_text [OF ny this]
  have t: "is_text_op y" and a: "or_empty (op_attributes y) = or_empty (op_attributes x)"
    by simp_all
  have "op_attributes y = op_attributes x"
    using a normal_head(4) [OF ny] normal_head(4) [OF assms(1)]
    by (intro or_empty_inject) (simp_all add: op_ok_def)
  moreover have "is_text_op x"
    using assms(2) by (simp add: is_text_op_def)
  ultimately show False
    using assms(1) t unfolding yd normal_def by simp
qed

lemma map_append_eq_longer:
  assumes "map f u @ r = map f u' @ r'" and "length u < length u'" and "inj f"
  shows "\<exists>w. w \<noteq> [] \<and> u' = u @ w \<and> r = map f w @ r'"
proof -
  let ?w = "drop (length u) u'"
  have u': "u' = take (length u) u' @ ?w"
    by simp
  have "map f u @ r = map f (take (length u) u') @ (map f ?w @ r')"
    using assms(1) by (metis append_assoc append_take_drop_id map_append)
  moreover have "length (map f u) = length (map f (take (length u) u'))"
    using assms(2) by simp
  ultimately have "map f u = map f (take (length u) u')" and r: "r = map f ?w @ r'"
    by (simp_all add: append_eq_append_conv)
  then have "u = take (length u) u'"
    using assms(3) by (simp add: inj_map_eq_map)
  then have "u' = u @ ?w"
    using u' by simp
  moreover have "?w \<noteq> []"
    using assms(2) by simp
  ultimately show ?thesis
    using r by blast
qed

lemma normal_unique:
  assumes "normal d" and "normal d'" and "delta_units d = delta_units d'"
  shows "d = d'"
  using assms
proof (induction d arbitrary: d')
  case Nil
  then show ?case
    using delta_units_Nil [of d'] by (simp add: delta_units_def)
next
  case (Cons x d)
  have "d' \<noteq> []"
    using Cons.prems delta_units_Nil [of "x # d"] by (auto simp: delta_units_def)
  then obtain x' e where d': "d' = x' # e"
    by (cases d') simp_all
  note nx = normal_head [OF Cons.prems(1)]
  note nx' = normal_head [OF Cons.prems(2) [unfolded d']]
  have nd: "normal d" and ne: "normal e"
    using Cons.prems(1,2) normal_Cons unfolding d' by blast+
  have eq: "op_units x @ delta_units d = op_units x' @ delta_units e"
    using Cons.prems(3) unfolding d' by (simp add: delta_units_def)
  obtain i where i: "op_insert x = Some i"
    using nx(1) by auto
  obtain i' where i': "op_insert x' = Some i'"
    using nx'(1) by auto
  have "x = x' \<and> delta_units d = delta_units e"
  proof (cases i)
    case (Embed m)
    have ux: "op_units x = [(AEmbed m, or_empty (op_attributes x))]"
      using i Embed by (simp add: op_units_def)
    show ?thesis
    proof (cases i')
      case (Text u')
      then have "u' \<noteq> []"
        using nx'(4) i' by (auto simp: op_ok_def)
      then show ?thesis
        using eq ux i' Text by (cases u') (simp_all add: op_units_def)
    next
      case E': (Embed m')
      have "m = m'" and a: "or_empty (op_attributes x) = or_empty (op_attributes x')"
        and r: "delta_units d = delta_units e"
        using eq ux i' E' by (simp_all add: op_units_def)
      have "op_attributes x = op_attributes x'"
        using a nx(4) nx'(4) by (intro or_empty_inject) (simp_all add: op_ok_def)
      then have "x = x'"
        using i i' Embed E' \<open>m = m'\<close> nx(2,3) nx'(2,3) by simp
      then show ?thesis
        using r by simp
    qed
  next
    case (Text u)
    have u: "u \<noteq> []"
      using nx(4) i Text by (auto simp: op_ok_def)
    let ?f = "\<lambda>a c. (AChar c, a :: attrs)"
    have ux: "op_units x = map (?f (or_empty (op_attributes x))) u"
      using i Text by (simp add: op_units_def)
    show ?thesis
    proof (cases i')
      case E': (Embed m')
      then show ?thesis
        using eq ux i' u by (cases u) (simp_all add: op_units_def)
    next
      case T': (Text u')
      have u': "u' \<noteq> []"
        using nx'(4) i' T' by (auto simp: op_ok_def)
      have ux': "op_units x' = map (?f (or_empty (op_attributes x'))) u'"
        using i' T' by (simp add: op_units_def)
      have a: "or_empty (op_attributes x) = or_empty (op_attributes x')"
        using eq u u' unfolding ux ux' by (cases u; cases u') simp_all
      have aa: "op_attributes x = op_attributes x'"
        using a nx(4) nx'(4) by (intro or_empty_inject) (simp_all add: op_ok_def)
      have inj: "inj (?f (or_empty (op_attributes x)))"
        by (simp add: inj_def)
      have eq': "map (?f (or_empty (op_attributes x))) u @ delta_units d
          = map (?f (or_empty (op_attributes x))) u' @ delta_units e"
        using eq unfolding ux ux' a by simp
      have len: "length u = length u'"
      proof (rule ccontr)
        assume "length u \<noteq> length u'"
        then consider "length u < length u'" | "length u' < length u"
          by linarith
        then show False
        proof cases
          case 1
          from map_append_eq_longer [OF eq' 1 inj]
          obtain w where "w \<noteq> []"
            "delta_units d = map (?f (or_empty (op_attributes x))) w @ delta_units e"
            by blast
          then show False
            using text_units_prefix [OF Cons.prems(1) i [unfolded Text]] by blast
        next
          case 2
          from map_append_eq_longer [OF eq' [symmetric] 2 inj]
          obtain w where "w \<noteq> []"
            "delta_units e = map (?f (or_empty (op_attributes x'))) w @ delta_units d"
            unfolding a by blast
          then show False
            using text_units_prefix [OF Cons.prems(2) [unfolded d'] i' [unfolded T']] by blast
        qed
      qed
      have "map (?f (or_empty (op_attributes x))) u = map (?f (or_empty (op_attributes x))) u'"
        and r: "delta_units d = delta_units e"
        using eq' len by (simp_all add: append_eq_append_conv)
      then have "u = u'"
        using inj by (simp add: inj_map_eq_map)
      then have "x = x'"
        using i i' Text T' aa nx(2,3) nx'(2,3) by simp
      then show ?thesis
        using r by simp
    qed
  qed
  then show ?case
    using Cons.IH [OF nd ne] d' by simp
qed

lemma separated_snoc:
  "separated (d @ [z]) =
     (separated d \<and>
      (d \<noteq> [] \<longrightarrow>
         \<not> (is_text_op (last d) \<and> is_text_op z \<and> op_attributes (last d) = op_attributes z)))"
  by (induction d rule: separated.induct) simp_all

lemma normal_snoc:
  "normal (d @ [z]) =
     (normal d \<and> op_insert z \<noteq> None \<and> op_delete z = None \<and> op_retain z = None \<and> op_ok z \<and>
      (d \<noteq> [] \<longrightarrow>
         \<not> (is_text_op (last d) \<and> is_text_op z \<and> op_attributes (last d) = op_attributes z)))"
  unfolding normal_def by (auto simp: separated_snoc is_document_def)

lemma stored_ok: "stored a \<noteq> Some Map.empty"
  by (simp add: stored_def)

lemma normal_delta_insert:
  assumes "normal d"
  shows "normal (delta_insert d i a)"
proof (cases "i = Text []")
  case True
  then show ?thesis
    using assms by (simp add: delta_insert_def)
next
  case False
  have doc: "is_document d"
    using assms by (simp add: normal_def)
  show ?thesis
  proof (cases "merges d i a")
    case m: False
    have "delta_insert d i a = d @ [ins_op i a]"
      using doc False m by (rule delta_insert_append)
    moreover have "normal (d @ [ins_op i a])"
      unfolding normal_snoc
      using assms False m
      by (auto simp: ins_op_def op_ok_def stored_ok merges_def is_text_op_def)
    ultimately show ?thesis by simp
  next
    case True
    then obtain d' x u t where d: "d = d' @ [x]" and x: "op_insert x = Some (Text u)"
        "op_attributes x = stored a" and i: "i = Text t"
      unfolding merges_def by (metis append_butlast_last_id)
    have t: "t \<noteq> []"
      using False i by simp
    have "delta_insert d i a = d' @ [text_op (u @ t) (stored a)]"
      unfolding d i using doc x t unfolding d by (intro delta_insert_merge) simp_all
    moreover have "normal (d' @ [text_op (u @ t) (stored a)])"
      using assms x t unfolding d normal_snoc
      by (auto simp: text_op_def op_ok_def stored_ok is_text_op_def)
    ultimately show ?thesis by simp
  qed
qed

lemma normal_insert_segments: "normal d \<Longrightarrow> normal (insert_segments d ss)"
  unfolding insert_segments_def
  by (induction ss arbitrary: d) (simp_all add: normal_delta_insert)

lemma normal_encode_lines: "normal d \<Longrightarrow> normal (fst (encode_lines i ls (d, a)))"
  by (induction ls arbitrary: i d a) (simp_all add: normal_delta_insert normal_insert_segments)

lemma normal_encodeContent: "normal (encodeContent ls)"
proof -
  have "normal []"
    by (simp add: normal_def is_document_def)
  then have "normal (fst (encode_lines 0 ls ([], Map.empty)))"
    by (rule normal_encode_lines)
  then show ?thesis
    unfolding encodeContent_def
    by (auto simp: normal_delta_insert split: prod.splits)
qed

lemma state_units_close_line:
  "state_units (close_line a st) = state_units st @ [(AChar nl, a)]"
  by (simp add: state_units_def close_line_def line_units_def segments_units_def)

lemma state_units_push_segment:
  "state_units (push_segment i a st) = state_units st @ ins_units i a"
  by (simp add: state_units_def push_segment_def segments_units_def)

lemma state_units_close_lines:
  "state_units ((close_line a ^^ n) st) = state_units st @ replicate n (AChar nl, a)"
  by (induction n) (simp_all add: state_units_close_line replicate_append_same)

lemma state_units_split_loop:
  "state_units (split_loop i ps a st) = state_units st @ pieces_units i ps a"
  by (induction i ps a st rule: split_loop.induct)
     (simp_all add: state_units_close_line state_units_push_segment)

lemma pieces_units_split_nl:
  "pieces_units i (split_nl u) a =
     (if i \<noteq> 0 then [(AChar nl, Map.empty)] else [])
     @ map (\<lambda>c. (AChar c, if c = nl then Map.empty else a)) u"
proof (induction u arbitrary: i)
  case Nil
  show ?case by simp
next
  case (Cons c u)
  show ?case
  proof (cases "c = nl")
    case True
    then show ?thesis
      using Cons [of "Suc i"] by simp
  next
    case False
    obtain p ps where p: "split_nl u = p # ps"
      by (cases "split_nl u") simp_all
    have "map (\<lambda>c. (AChar c, a)) p @ pieces_units (Suc i) ps a
        = map (\<lambda>c. (AChar c, if c = nl then Map.empty else a)) u"
      using Cons [of i] unfolding p by simp
    then show ?thesis
      using False p by simp
  qed
qed

lemma all_nl_units:
  "all_nl u \<Longrightarrow> map (\<lambda>c. (AChar c, a)) u = replicate (length u) (AChar nl, a)"
  by (induction u) (simp_all add: all_nl_def)

lemma decode_op_units:
  assumes "op_insert x \<noteq> None"
    and "\<And>u. op_insert x = Some (Text u) \<Longrightarrow> nl \<in> set u \<Longrightarrow> \<not> all_nl u
           \<Longrightarrow> op_attributes x = None"
  shows "state_units (decode_op st x) = state_units st @ op_units x"
proof -
  obtain i where i: "op_insert x = Some i"
    using assms(1) by auto
  show ?thesis
  proof (cases i)
    case (Embed e)
    then show ?thesis
      using i by (simp add: decode_op_def op_units_def state_units_push_segment)
  next
    case (Text u)
    show ?thesis
    proof (cases "all_nl u")
      case True
      then show ?thesis
        using i Text
        by (simp add: decode_op_def op_units_def state_units_close_lines all_nl_units
            all_nl_def [symmetric])
    next
      case False
      have "map (\<lambda>c. (AChar c, if c = nl then Map.empty else or_empty (op_attributes x))) u
          = map (\<lambda>c. (AChar c, or_empty (op_attributes x))) u"
      proof (cases "nl \<in> set u")
        case True
        then have "op_attributes x = None"
          using assms(2) i Text False by simp
        then show ?thesis
          by (simp add: or_empty_def)
      next
        case n: False
        then show ?thesis
          by (intro map_cong) auto
      qed
      then show ?thesis
        using i Text False
        by (simp add: decode_op_def op_units_def state_units_split_loop pieces_units_split_nl
            all_nl_def [symmetric])
    qed
  qed
qed

lemma decode_units:
  assumes "is_document d" and "plain_mixed d"
  shows "state_units (foldl decode_op st d) = state_units st @ delta_units d"
  using assms
proof (induction d arbitrary: st)
  case Nil
  show ?case by (simp add: delta_units_def)
next
  case (Cons x d)
  have 1: "op_insert x \<noteq> None" and 2: "is_document d" and 3: "plain_mixed d"
    using Cons.prems by (simp_all add: is_document_def plain_mixed_def)
  have 4: "op_attributes x = None" if "op_insert x = Some (Text u)" "nl \<in> set u" "\<not> all_nl u" for u
    using Cons.prems(2) that by (simp add: plain_mixed_def)
  show ?case
    using Cons.IH [OF 2 3, of "decode_op st x"] decode_op_units [OF 1 4, where st = st]
    by (simp add: delta_units_def)
qed

lemma encode_delta_units: "delta_units (encodeContent ls) = encoded_units ls"
proof -
  have e: "is_document []" by (simp add: is_document_def)
  obtain d a where r: "encode_lines 0 ls ([], Map.empty) = (d, a)"
    by (cases "encode_lines 0 ls ([], Map.empty)")
  have d: "is_document d"
    and u: "delta_units d = (if ls = [] then []
        else concat (map line_units (butlast ls)) @ segments_units (segments (last ls)))"
    and a: "a = (if ls = [] then Map.empty else line_attributes (last ls))"
    using encode_lines_units [OF e, of 0 ls Map.empty] unfolding r
    by (simp_all add: delta_units_def)
  show ?thesis
    using delta_insert_document [OF d, of "Text [nl]" a] d u a
    unfolding encodeContent_def r encoded_units_def
    by (cases "ls = []") simp_all
qed

lemma split_loop_open: "ps \<noteq> [] \<Longrightarrow> snd (split_loop i ps a st) \<noteq> []"
proof (induction ps arbitrary: i st)
  case Nil
  then show ?case by simp
next
  case (Cons p ps)
  show ?case
  proof (cases "ps = []")
    case True
    then show ?thesis by (simp add: push_segment_def)
  next
    case False
    then show ?thesis
      using Cons.IH [of "Suc i"] by simp
  qed
qed

lemma close_lines_closed:
  "0 < n \<Longrightarrow> snd ((close_line a ^^ n) st) = [] \<and> fst ((close_line a ^^ n) st) \<noteq> []
     \<and> line_attributes (last (fst ((close_line a ^^ n) st))) = a"
  by (cases n) (simp_all add: close_line_def)

lemma decode_op_open:
  assumes "op_insert x \<noteq> None" and "\<forall>u. op_insert x = Some (Text u) \<longrightarrow> \<not> all_nl u"
  shows "snd (decode_op st x) \<noteq> []"
proof -
  obtain i where i: "op_insert x = Some i"
    using assms(1) by auto
  show ?thesis
    using i assms(2)
    by (cases i)
       (simp_all add: decode_op_def push_segment_def split_loop_open all_nl_def [symmetric])
qed

lemma decode_op_closed:
  assumes "op_insert x = Some (Text u)" and "all_nl u" and "u \<noteq> []"
  shows "snd (decode_op st x) = [] \<and> fst (decode_op st x) \<noteq> []
     \<and> line_attributes (last (fst (decode_op st x))) = or_empty (op_attributes x)"
  using assms close_lines_closed [of "length u" "or_empty (op_attributes x)" st]
  by (simp add: decode_op_def all_nl_def [symmetric])

lemma encoded_units_open:
  assumes "snd st \<noteq> []"
  shows "encoded_units (decode_finish st) = state_units st"
  using assms
  by (simp add: decode_finish_def close_line_def encoded_units_def state_units_def)

lemma encoded_units_closed:
  assumes "snd st = []" and "fst st \<noteq> []" and "line_attributes (last (fst st)) \<noteq> Map.empty"
  shows "encoded_units (decode_finish st) = state_units st"
proof -
  have "concat (map line_units (fst st))
      = concat (map line_units (butlast (fst st) @ [last (fst st)]))"
    using assms(2) by simp
  also have "\<dots> = concat (map line_units (butlast (fst st))) @ line_units (last (fst st))"
    by simp
  finally have "concat (map line_units (fst st))
      = concat (map line_units (butlast (fst st))) @ line_units (last (fst st))" .
  then show ?thesis
    using assms
    by (simp add: decode_finish_def encoded_units_def state_units_def line_units_def
        segments_units_def)
qed

lemma encoded_units_decode:
  assumes "normal d" and "plain_mixed d" and "d \<noteq> [] \<Longrightarrow> \<not> bare (last d)"
  shows "encoded_units (decodeContent (Some d)) = delta_units d"
proof (cases "d = []")
  case True
  then show ?thesis
    by (simp add: decodeContent_def decode_finish_def encoded_units_def delta_units_def)
next
  case False
  then obtain d' x where d: "d = d' @ [x]"
    by (metis rev_exhaust)
  have x: "op_insert x \<noteq> None" "op_ok x"
    using assms(1) unfolding d by (simp_all add: normal_snoc)
  have nb: "\<not> bare x"
    using assms(3) d by simp
  let ?st' = "foldl decode_op ([], []) d'"
  let ?st = "decode_op ?st' x"
  have doc: "is_document d"
    using assms(1) by (simp add: normal_def)
  have su: "state_units ?st = delta_units d"
    using decode_units [OF doc assms(2), of "([], [])"] unfolding d
    by (simp add: state_units_def [of "([], [])"] segments_units_def)
  have "encoded_units (decode_finish ?st) = state_units ?st"
  proof (cases "\<exists>u. op_insert x = Some (Text u) \<and> all_nl u")
    case True
    then obtain u where u: "op_insert x = Some (Text u)" "all_nl u"
      by blast
    have "u \<noteq> []"
      using x(2) u(1) by (auto simp: op_ok_def)
    note c = decode_op_closed [OF u this, of ?st']
    have "op_attributes x \<noteq> None"
      using nb u by (auto simp: bare_def)
    then have "or_empty (op_attributes x) \<noteq> Map.empty"
      using x(2) by (auto simp: op_ok_def or_empty_def)
    then show ?thesis
      using c by (intro encoded_units_closed) simp_all
  next
    case False
    then have "snd ?st \<noteq> []"
      using x(1) by (intro decode_op_open) auto
    then show ?thesis
      by (rule encoded_units_open)
  qed
  then show ?thesis
    using su unfolding d by (simp add: decodeContent_def)
qed

lemma encode_decode:
  assumes "normal d" and "plain_mixed d" and "d \<noteq> [] \<Longrightarrow> \<not> bare (last d)"
  shows "encodeContent (decodeContent (Some d)) = d"
proof (rule normal_unique)
  show "normal (encodeContent (decodeContent (Some d)))"
    by (rule normal_encodeContent)
  show "normal d"
    by fact
  show "delta_units (encodeContent (decodeContent (Some d))) = delta_units d"
    using encoded_units_decode [OF assms] by (simp add: encode_delta_units)
qed

lemma decode_bare:
  assumes "normal (d @ [x])" and "bare x"
    and "removeEmptyLines (decodeContent (Some (d @ [x]))) = decodeContent (Some (d @ [x]))"
  shows "decodeContent (Some (d @ [x])) = decodeContent (Some d)"
proof -
  obtain u where u: "op_insert x = Some (Text u)" "all_nl u" "op_attributes x = None"
    using assms(2) by (auto simp: bare_def)
  have "u \<noteq> []"
    using assms(1) u(1) by (auto simp: normal_snoc op_ok_def)
  then obtain n where n: "length u = Suc n"
    by (cases u) simp_all
  let ?st = "foldl decode_op ([], []) d"
  let ?mid = "(close_line Map.empty ^^ n) ?st"
  have st: "decode_op ?st x = close_line Map.empty ?mid"
    using u n by (simp add: decode_op_def all_nl_def [symmetric] or_empty_def)
  have X: "decodeContent (Some (d @ [x])) = fst ?mid @ [\<lparr>segments = snd ?mid, line_attributes = Map.empty\<rparr>]"
    by (simp add: decodeContent_def st decode_finish_def close_line_def)
  have ne: "\<not> empty_line \<lparr>segments = snd ?mid, line_attributes = Map.empty\<rparr>"
    using removeEmptyLines_fixed [OF assms(3)] unfolding X by simp
  have "n = 0"
  proof (rule ccontr)
    assume "n \<noteq> 0"
    then have "snd ?mid = []"
      using close_lines_closed [of n Map.empty ?st] by simp
    then show False
      using ne by (simp add: empty_line_def)
  qed
  then have mid: "?mid = ?st"
    by simp
  have "snd ?st \<noteq> []"
    using ne unfolding mid by (auto simp: empty_line_def)
  then have "decodeContent (Some d) = fst ?st @ [\<lparr>segments = snd ?st, line_attributes = Map.empty\<rparr>]"
    by (simp add: decodeContent_def decode_finish_def close_line_def)
  then show ?thesis
    unfolding X mid by simp
qed

text \<open>
  C1, amended. Let \<open>d\<close> be a normal Delta whose strings that mix line feeds with
  other characters have no attributes, and let its decoding have no trailing empty
  line. Then decoding the encoding of that list of lines gives the list again.
  Unless \<open>d\<close> ends with a bare string of line feeds, the encoding is \<open>d\<close> itself
  (\<open>encode_decode\<close>).
\<close>

theorem decode_encode_decoded:
  assumes "normal d" and "plain_mixed d"
    and "removeEmptyLines (decodeContent (Some d)) = decodeContent (Some d)"
  shows "decodeContent (Some (encodeContent (decodeContent (Some d)))) = decodeContent (Some d)"
proof (cases "d \<noteq> [] \<and> bare (last d)")
  case False
  then have "encodeContent (decodeContent (Some d)) = d"
    using assms(1,2) by (intro encode_decode) auto
  then show ?thesis by simp
next
  case True
  then obtain d' x where d: "d = d' @ [x]" and b: "bare x"
    by (metis append_butlast_last_id)
  have eq: "decodeContent (Some d) = decodeContent (Some d')"
    using assms(1,3) b unfolding d by (intro decode_bare)
  have n': "normal d'" and p': "plain_mixed d'"
    using assms(1,2) unfolding d by (simp_all add: normal_snoc plain_mixed_def)
  have nb: "\<not> bare (last d')" if "d' \<noteq> []"
  proof
    assume "bare (last d')"
    then have "is_text_op (last d')" "op_attributes (last d') = None"
      by (auto simp: bare_def is_text_op_def)
    moreover have "is_text_op x" "op_attributes x = None"
      using b by (auto simp: bare_def is_text_op_def)
    ultimately show False
      using assms(1) that unfolding d by (simp add: normal_snoc)
  qed
  have "encodeContent (decodeContent (Some d')) = d'"
    using n' p' nb by (rule encode_decode)
  then show ?thesis
    unfolding eq by simp
qed

lemmas normal_eval =
  normal_def is_document_def op_ok_def is_text_op_def plain_mixed_def all_nl_def empty_neq_upd

theorem decode_encode_decoded_witness:
  "normal [text_op (''a'' @ [nl, nl] @ ''b'' @ [nl]) None, image_op ''u'',
           text_op [nl] (Some [''header'' \<mapsto> JNumber 1])]
   \<and> plain_mixed [text_op (''a'' @ [nl, nl] @ ''b'' @ [nl]) None, image_op ''u'',
           text_op [nl] (Some [''header'' \<mapsto> JNumber 1])]
   \<and> decodeContent (Some [text_op (''a'' @ [nl, nl] @ ''b'' @ [nl]) None, image_op ''u'',
           text_op [nl] (Some [''header'' \<mapsto> JNumber 1])])
     = [mk_line [text_seg ''a'' Map.empty] Map.empty,
        mk_line [text_seg '''' Map.empty] Map.empty,
        mk_line [text_seg ''b'' Map.empty] Map.empty,
        mk_line [text_seg '''' Map.empty, image_seg ''u''] [''header'' \<mapsto> JNumber 1]]
   \<and> removeEmptyLines
       [mk_line [text_seg ''a'' Map.empty] Map.empty,
        mk_line [text_seg '''' Map.empty] Map.empty,
        mk_line [text_seg ''b'' Map.empty] Map.empty,
        mk_line [text_seg '''' Map.empty, image_seg ''u''] [''header'' \<mapsto> JNumber 1]]
     = [mk_line [text_seg ''a'' Map.empty] Map.empty,
        mk_line [text_seg '''' Map.empty] Map.empty,
        mk_line [text_seg ''b'' Map.empty] Map.empty,
        mk_line [text_seg '''' Map.empty, image_seg ''u''] [''header'' \<mapsto> JNumber 1]]
   \<and> decodeContent (Some (encodeContent
       [mk_line [text_seg ''a'' Map.empty] Map.empty,
        mk_line [text_seg '''' Map.empty] Map.empty,
        mk_line [text_seg ''b'' Map.empty] Map.empty,
        mk_line [text_seg '''' Map.empty, image_seg ''u''] [''header'' \<mapsto> JNumber 1]]))
     = [mk_line [text_seg ''a'' Map.empty] Map.empty,
        mk_line [text_seg '''' Map.empty] Map.empty,
        mk_line [text_seg ''b'' Map.empty] Map.empty,
        mk_line [text_seg '''' Map.empty, image_seg ''u''] [''header'' \<mapsto> JNumber 1]]"
proof -
  let ?d = "[text_op (''a'' @ [nl, nl] @ ''b'' @ [nl]) None, image_op ''u'',
           text_op [nl] (Some [''header'' \<mapsto> JNumber 1])]"
  let ?x = "[mk_line [text_seg ''a'' Map.empty] Map.empty,
        mk_line [text_seg '''' Map.empty] Map.empty,
        mk_line [text_seg ''b'' Map.empty] Map.empty,
        mk_line [text_seg '''' Map.empty, image_seg ''u''] [''header'' \<mapsto> JNumber 1]]"
  have 1: "normal ?d"
    by (simp add: normal_eval text_op_def image_op_def)
  have 2: "plain_mixed ?d"
    by (simp add: normal_eval text_op_def image_op_def)
  have 3: "decodeContent (Some ?d) = ?x"
    by (simp add: codec_eval)
  have 4: "removeEmptyLines ?x = ?x"
    by (simp add: removeEmptyLines_def empty_line_def mk_line_def)
  have 5: "removeEmptyLines (decodeContent (Some ?d)) = decodeContent (Some ?d)"
    unfolding 3 by (rule 4)
  show ?thesis
    using decode_encode_decoded [OF 1 2 5] 1 2 4 unfolding 3 by simp
qed

end
